theory Spec2Isabelle
  imports Complex_Main "HOL-Library.AList"
begin

section \<open>Python values and errors\<close>

text \<open>
  The notebooks are Python. An exception that leaves a function is a value of
  \<open>py_error\<close>; a function that can raise returns \<open>py_error + 'a\<close>.
\<close>

datatype py_error =
    ZeroDivisionError
  | KeyError string
  | AttributeError
  | TypeError
  | ValueError

section \<open>Shell layout: \<open>make_shells\<close> (metabolic network notebook)\<close>

text \<open>
  The network notebook runs on Python 3, so \<open>total_nodes/num_shells\<close> is true division.
  Floating point numbers are modelled by exact rationals; \<open>np.round\<close> rounds to the
  nearest integer and a tie to the even neighbour, and returns a float again.
\<close>

definition np_round :: "rat \<Rightarrow> rat" where
  "np_round x =
     (let f = \<lfloor>x\<rfloor>; d = x - of_int f
      in of_int (if d < 1 / 2 then f
                 else if 1 / 2 < d then f + 1
                 else if even f then f else f + 1))"

text \<open>\<open>int(x)\<close> on a float truncates towards zero.\<close>

definition py_int :: "rat \<Rightarrow> int" where
  "py_int x = (if 0 \<le> x then \<lfloor>x\<rfloor> else \<lceil>x\<rceil>)"

text \<open>
  The slices \<open>nodes[:k]\<close> and \<open>nodes[k:]\<close> for a Python integer \<open>k\<close>: a negative
  \<open>k\<close> counts from the end, and both ends are clipped to the list.
\<close>

definition slice_index :: "'a list \<Rightarrow> int \<Rightarrow> nat" where
  "slice_index xs k = nat (if k < 0 then int (length xs) + k else k)"

definition slice_to :: "'a list \<Rightarrow> int \<Rightarrow> 'a list" where
  "slice_to xs k = take (slice_index xs k) xs"

definition slice_from :: "'a list \<Rightarrow> int \<Rightarrow> 'a list" where
  "slice_from xs k = drop (slice_index xs k) xs"

text \<open>
  The body of the loop up to \<open>num_nodes = int(from_inner+this_shell-to_outer)\<close>, for the
  shell number \<open>i\<close> (counted from 1).
\<close>

definition num_nodes :: "rat \<Rightarrow> nat \<Rightarrow> int" where
  "num_nodes nodes_per_shell i =
     (let this_shell = nodes_per_shell;
          from_inner = (if i = 1 then 0
                        else np_round (nodes_per_shell * (of_nat (i - 1) / of_nat i)));
          to_outer = np_round (nodes_per_shell * (of_nat i / of_nat (i + 1)))
      in py_int (from_inner + this_shell - to_outer))"

text \<open>
  The loop \<open>for i,s in enumerate(shells,start=1)\<close>, over the list of the values of \<open>i\<close>.
  The state is the pair of \<open>shells\<close> and \<open>nodes\<close>; the last shell takes \<open>nodes\<close> and leaves
  it as it is.
\<close>

fun fill_shells :: "int \<Rightarrow> rat \<Rightarrow> nat list \<Rightarrow> 'a list list \<Rightarrow> 'a list \<Rightarrow> 'a list list" where
  "fill_shells num_shells nodes_per_shell [] shells nodes = shells"
| "fill_shells num_shells nodes_per_shell (i # is) shells nodes =
     (if int i = num_shells
      then fill_shells num_shells nodes_per_shell is (shells[i - 1 := nodes]) nodes
      else fill_shells num_shells nodes_per_shell is
             (shells[i - 1 := slice_to nodes (num_nodes nodes_per_shell i)])
             (slice_from nodes (num_nodes nodes_per_shell i)))"

text \<open>
  \<open>make_shells(num_shells,nodes)\<close>. \<open>[[]]*num_shells\<close> is the empty list for a negative
  \<open>num_shells\<close>, and the division raises for \<open>num_shells = 0\<close>.
\<close>

definition make_shells :: "int \<Rightarrow> 'a list \<Rightarrow> py_error + 'a list list" where
  "make_shells num_shells nodes =
     (let total_nodes = length nodes;
          shells = replicate (nat num_shells) []
      in if num_shells = 0 then Inl ZeroDivisionError
         else let nodes_per_shell = np_round (of_nat total_nodes / of_int num_shells)
              in Inr (fill_shells num_shells nodes_per_shell
                        [1 ..< Suc (length shells)] shells nodes))"

section \<open>Directed graphs with node attributes\<close>

text \<open>
  A node attribute is a string (\<open>col\<close>, \<open>Name\<close>), the missing value NaN, an integer
  (\<open>weight\<close>) or a pair of coordinates (\<open>pos\<close>). The type of a coordinate is left open:
  the code only adds coordinates.
\<close>

datatype 'c attr = Str string | NaN | Num int | Pos 'c 'c

text \<open>
  \<open>nx.DiGraph\<close>: \<open>node\<close> is the dictionary \<open>g.node\<close> from a node to the dictionary of
  its attributes, in the order of insertion; \<open>edge\<close> is the set of the directed edges.
\<close>

record 'c digraph =
  node :: "(string \<times> (string \<rightharpoonup> 'c attr)) list"
  edge :: "(string \<times> string) set"

definition nodes_of :: "'c digraph \<Rightarrow> string list" where
  "nodes_of g = map fst (node g)"

text \<open>\<open>g.node[n].get(k)\<close>, for reading an attribute in a statement.\<close>

definition node_attr :: "'c digraph \<Rightarrow> string \<Rightarrow> string \<Rightarrow> 'c attr option" where
  "node_attr g n k = (case map_of (node g) n of None \<Rightarrow> None | Some a \<Rightarrow> a k)"

definition add_node :: "string \<Rightarrow> 'c digraph \<Rightarrow> 'c digraph" where
  "add_node n g = (if n \<in> set (nodes_of g) then g else g\<lparr>node := node g @ [(n, Map.empty)]\<rparr>)"

text \<open>\<open>g.add_edge(u,v)\<close> adds the nodes_of that are new, with no attributes, then the edge.\<close>

definition add_edge :: "string \<Rightarrow> string \<Rightarrow> 'c digraph \<Rightarrow> 'c digraph" where
  "add_edge u v g = (let g = add_node u g; g = add_node v g in g\<lparr>edge := insert (u, v) (edge g)\<rparr>)"

text \<open>\<open>g.node[n][k] = v\<close> raises KeyError for a node that is not in the graph.\<close>

definition set_attr :: "string \<Rightarrow> string \<Rightarrow> 'c attr \<Rightarrow> 'c digraph \<Rightarrow> py_error + 'c digraph" where
  "set_attr n k v g =
     (case map_of (node g) n of
        None \<Rightarrow> Inl (KeyError n)
      | Some a \<Rightarrow> Inr (g\<lparr>node := AList.update n (a(k \<mapsto> v)) (node g)\<rparr>))"

section \<open>The category table\<close>

text \<open>
  A cell of the table is a string or NaN (\<open>None\<close>). A row of \<open>metacyc_df\<close> has the
  columns that the notebooks read.
\<close>

type_synonym cell = "string option"

record row =
  Pathway :: string
  Category1 :: cell
  Category2 :: cell
  Category3 :: cell
  Category4 :: cell
  Category5 :: cell
  Category6 :: cell
  Category7 :: cell
  Parent :: cell
  Name :: cell

text \<open>\<open>GroupBy.first()\<close> takes, column by column, the first value of the group that is not NaN.\<close>

fun first_valid :: "cell list \<Rightarrow> cell" where
  "first_valid [] = None"
| "first_valid (None # cs) = first_valid cs"
| "first_valid (Some s # cs) = Some s"

text \<open>
  \<open>df.groupby("Pathway").first()\<close>, read at the index \<open>p\<close>: \<open>None\<close> when no row of \<open>df\<close>
  is of the pathway \<open>p\<close>.
\<close>

definition groupby_first :: "row list \<Rightarrow> string \<Rightarrow> row option" where
  "groupby_first df p =
     (let g = filter (\<lambda>r. Pathway r = p) df
      in if g = [] then None
         else Some \<lparr>Pathway = p,
                    Category1 = first_valid (map Category1 g),
                    Category2 = first_valid (map Category2 g),
                    Category3 = first_valid (map Category3 g),
                    Category4 = first_valid (map Category4 g),
                    Category5 = first_valid (map Category5 g),
                    Category6 = first_valid (map Category6 g),
                    Category7 = first_valid (map Category7 g),
                    Parent = first_valid (map Parent g),
                    Name = first_valid (map Name g)\<rparr>)"

section \<open>Pathway hierarchy: \<open>add_subset\<close> (metabolic tree notebook)\<close>

text \<open>The parameter \<open>root\<close> of the source is written \<open>root'\<close>.\<close>

text \<open>\<open>str(i)\<close> for a natural number.\<close>

fun py_str :: "nat \<Rightarrow> string" where
  "py_str n = (if n < 10 then [''0123456789'' ! n]
               else py_str (n div 10) @ [''0123456789'' ! (n mod 10)])"

text \<open>\<open>current.split("|")[0]+"|"+str(i)\<close> for a string \<open>current\<close>.\<close>

definition level_name :: "string \<Rightarrow> nat \<Rightarrow> string" where
  "level_name current i = takeWhile (\<lambda>c. c \<noteq> CHR ''|'') current @ ''|'' @ py_str i"

text \<open>The same statement for a cell: a NaN is a float and has no \<open>split\<close>.\<close>

definition split_level :: "cell \<Rightarrow> nat \<Rightarrow> py_error + string" where
  "split_level current i =
     (case current of
        None \<Rightarrow> Inl AttributeError
      | Some s \<Rightarrow> Inr (level_name s i))"

text \<open>
  The three statements that follow the naming of a level, in the loop and for the parent:
  \<open>dg.add_edge(previous,current)\<close>, \<open>dg.node[current]['col'] = col\<close>,
  \<open>dg.node[previous]['col'] = col\<close>.
\<close>

definition link :: "string \<Rightarrow> string \<Rightarrow> string \<Rightarrow> 'c digraph \<Rightarrow> py_error + 'c digraph" where
  "link previous current col dg =
     (case set_attr current ''col'' (Str col) (add_edge previous current dg) of
        Inl e \<Rightarrow> Inl e
      | Inr dg \<Rightarrow> set_attr previous ''col'' (Str col) dg)"

text \<open>
  The columns that \<open>for i in range(2,8)\<close> reads as \<open>r["Category"+str(i)]\<close>, each with its \<open>i\<close>.
\<close>

definition category_columns :: "(nat \<times> (row \<Rightarrow> cell)) list" where
  "category_columns =
     [(2, Category2), (3, Category3), (4, Category4), (5, Category5), (6, Category6),
      (7, Category7)]"

text \<open>
  The inner loop, over the columns left to walk; the state is the graph and \<open>previous\<close>.
  \<open>current!=current\<close> holds of NaN only.
\<close>

fun walk_levels ::
  "row \<Rightarrow> string \<Rightarrow> (nat \<times> (row \<Rightarrow> cell)) list \<Rightarrow> 'c digraph \<Rightarrow> string
     \<Rightarrow> py_error + ('c digraph \<times> string)" where
  "walk_levels r col [] dg previous = Inr (dg, previous)"
| "walk_levels r col ((i, c) # cs) dg previous =
     (let current = c r;
          current = (if current = None then Some previous else current)
      in case split_level current i of
           Inl e \<Rightarrow> Inl e
         | Inr current \<Rightarrow>
             (case link previous current col dg of
                Inl e \<Rightarrow> Inl e
              | Inr dg \<Rightarrow> walk_levels r col cs dg current))"

text \<open>
  The statements of the body of \<open>for p in pwys\<close> that follow the inner loop, from \<open>i = 8\<close>
  on. For the parent the code reads \<open>r["Parent"]\<close> again where the value is NaN.
\<close>

definition add_parent :: "row \<Rightarrow> string \<Rightarrow> string \<Rightarrow> 'c digraph \<Rightarrow> string \<Rightarrow> py_error + 'c digraph" where
  "add_parent r col p dg previous =
     (let current = Parent r;
          current = (if current = None then Parent r else current)
      in case split_level current 8 of
           Inl e \<Rightarrow> Inl e
         | Inr current \<Rightarrow>
             (case link previous current col dg of
                Inl e \<Rightarrow> Inl e
              | Inr dg \<Rightarrow>
                  (case set_attr p ''col'' (Str col) (add_edge current p dg) of
                     Inl e \<Rightarrow> Inl e
                   | Inr dg \<Rightarrow>
                       set_attr p ''Name''
                         (case Name r of None \<Rightarrow> NaN | Some name \<Rightarrow> Str name) dg)))"

text \<open>The body of \<open>for p in pwys\<close>: \<open>df.loc[p]\<close>, the inner loop, the parent and the pathway.\<close>

definition add_path :: "string \<Rightarrow> row list \<Rightarrow> string \<Rightarrow> string \<Rightarrow> 'c digraph \<Rightarrow> py_error + 'c digraph" where
  "add_path root' df col p dg =
     (case groupby_first df p of
        None \<Rightarrow> Inl (KeyError p)
      | Some r \<Rightarrow>
          (case walk_levels r col category_columns dg root' of
             Inl e \<Rightarrow> Inl e
           | Inr (dg, previous) \<Rightarrow> add_parent r col p dg previous))"

fun add_paths :: "string \<Rightarrow> row list \<Rightarrow> string \<Rightarrow> string list \<Rightarrow> 'c digraph \<Rightarrow> py_error + 'c digraph" where
  "add_paths root' df col [] dg = Inr dg"
| "add_paths root' df col (p # ps) dg =
     (case add_path root' df col p dg of
        Inl e \<Rightarrow> Inl e
      | Inr dg \<Rightarrow> add_paths root' df col ps dg)"

definition add_subset :: "string \<Rightarrow> string list \<Rightarrow> row list \<Rightarrow> string \<Rightarrow> py_error + 'c digraph" where
  "add_subset root' pwys metacyc_df col =
     (let dg = \<lparr>node = [], edge = {}\<rparr>;
          df = filter (\<lambda>r. Category1 r = Some root' \<and> Pathway r \<in> set pwys) metacyc_df
      in add_paths root' df col pwys dg)"

section \<open>Node weights and positions\<close>

text \<open>
  \<open>assign_node_weights(g,d)\<close>, the loop over \<open>g.nodes()\<close>. \<open>d[n]\<close> raises KeyError for a
  node that is not a key of \<open>d\<close>, and the first \<open>try\<close> turns it into the weight 0. The second
  \<open>try\<close> catches KeyError only.
\<close>

fun assign_weights_loop :: "(string \<rightharpoonup> int) \<Rightarrow> string list \<Rightarrow> 'c digraph \<Rightarrow> py_error + 'c digraph" where
  "assign_weights_loop d [] g = Inr g"
| "assign_weights_loop d (n # ns) g =
     (let w = (case d n of None \<Rightarrow> 0 | Some w \<Rightarrow> w)
      in case (case set_attr n ''weight'' (Num w) g of
                 Inl (KeyError k) \<Rightarrow>
                   Inr (g\<lparr>node := AList.update n (Map.empty(''weight'' \<mapsto> Num w)) (node g)\<rparr>)
               | Inl e \<Rightarrow> Inl e
               | Inr g \<Rightarrow> Inr g) of
           Inl e \<Rightarrow> Inl e
         | Inr g \<Rightarrow> assign_weights_loop d ns g)"

definition assign_node_weights :: "'c digraph \<Rightarrow> (string \<rightharpoonup> int) \<Rightarrow> py_error + 'c digraph" where
  "assign_node_weights g d = assign_weights_loop d (nodes_of g) g"

text \<open>
  \<open>shift_nodes(g,nodes,x,y)\<close>. \<open>xn,yn = g.node[n]['pos']\<close> raises KeyError for a node or an
  attribute that is missing, and unpacks a pair only: a number is not iterable, and the
  two characters of a string of length two fail at \<open>xn+=x\<close>.
\<close>

fun shift_nodes :: "('c::plus) digraph \<Rightarrow> string list \<Rightarrow> 'c \<Rightarrow> 'c \<Rightarrow> py_error + 'c digraph" where
  "shift_nodes g [] x y = Inr g"
| "shift_nodes g (n # ns) x y =
     (case map_of (node g) n of
        None \<Rightarrow> Inl (KeyError n)
      | Some a \<Rightarrow>
          (case a ''pos'' of
             None \<Rightarrow> Inl (KeyError ''pos'')
           | Some (Pos xn yn) \<Rightarrow>
               (case set_attr n ''pos'' (Pos (xn + x) (yn + y)) g of
                  Inl e \<Rightarrow> Inl e
                | Inr g \<Rightarrow> shift_nodes g ns x y)
           | Some (Str s) \<Rightarrow> Inl (if length s = 2 then TypeError else ValueError)
           | Some _ \<Rightarrow> Inl TypeError))"

section \<open>The three subsets of pathways\<close>

definition core :: "string list" where
  "core = [''Generation of Precursor Metabolites and Energy'']"

definition syn :: "string list" where
  "syn = [''Biosynthesis'']"

definition deg :: "string list" where
  "deg = [''Degradation/Utilization/Assimilation'']"

text \<open>\<open>isin\<close> on one cell: NaN is in no list of strings.\<close>

definition isin :: "cell \<Rightarrow> string list \<Rightarrow> bool" where
  "isin c values = (case c of None \<Rightarrow> False | Some s \<Rightarrow> s \<in> set values)"

text \<open>\<open>set(metacyc_df.loc[metacyc_df.Category1.isin(cats),"Pathway"])\<close>.\<close>

definition pathways_in :: "row list \<Rightarrow> string list \<Rightarrow> string set" where
  "pathways_in metacyc_df cats = set (map Pathway (filter (\<lambda>r. isin (Category1 r) cats) metacyc_df))"

text \<open>
  The lists \<open>core_pwys\<close>, \<open>deg_pwys\<close> and \<open>syn_pwys\<close> are each \<open>list(set(...))\<close>, in an order
  that Python does not fix: they are modelled as sets.
\<close>

definition core_pwys :: "row list \<Rightarrow> string set" where
  "core_pwys metacyc_df = pathways_in metacyc_df core"

definition deg_pwys :: "row list \<Rightarrow> string set" where
  "deg_pwys metacyc_df =
     (let deg_pwys = pathways_in metacyc_df deg
      in deg_pwys - core_pwys metacyc_df)"

definition syn_pwys :: "row list \<Rightarrow> string set" where
  "syn_pwys metacyc_df =
     (let syn_pwys = pathways_in metacyc_df syn
      in syn_pwys - (core_pwys metacyc_df \<union> deg_pwys metacyc_df))"

section \<open>Definitions for the statements\<close>

text \<open>
  The node count of shell \<open>i\<close> as the specification writes it, with no special case for the
  first shell:
  \<open>int(round(nodes_per_shell * (i-1)/i) + nodes_per_shell - round(nodes_per_shell * i/(i+1)))\<close>.
\<close>

definition target_count :: "rat \<Rightarrow> nat \<Rightarrow> int" where
  "target_count nodes_per_shell i =
     py_int (np_round (nodes_per_shell * of_nat (i - 1) / of_nat i) + nodes_per_shell
             - np_round (nodes_per_shell * of_nat i / of_nat (i + 1)))"

text \<open>
  The nodes that are not yet assigned when the loop of \<open>make_shells\<close>, started at shell
  \<open>a\<close>, reaches shell \<open>i\<close>.
\<close>

definition rest_nodes :: "rat \<Rightarrow> nat \<Rightarrow> nat \<Rightarrow> 'a list \<Rightarrow> 'a list" where
  "rest_nodes nps a i nodes = fold (\<lambda>j ns. slice_from ns (num_nodes nps j)) [a ..< i] nodes"

section \<open>Inputs for the examples\<close>

text \<open>A graph of two nodes and one edge, and a count for the first node only.\<close>

definition two_nodes :: "int digraph" where
  "two_nodes =
     \<lparr>node = [(''a'', [''pos'' \<mapsto> Pos 0 0]), (''b'', [''pos'' \<mapsto> Pos 5 5, ''col'' \<mapsto> Str ''r''])],
      edge = {(''a'', ''b'')}\<rparr>"

definition a_count :: "string \<rightharpoonup> int" where
  "a_count = [''a'' \<mapsto> 7]"

text \<open>
  A category table in which two pathways are listed under two of the three categories, and
  one under a category that is none of the three.
\<close>

definition cat_row :: "string \<Rightarrow> string \<Rightarrow> row" where
  "cat_row p c = \<lparr>Pathway = p, Category1 = Some c, Category2 = None, Category3 = None,
     Category4 = None, Category5 = None, Category6 = None, Category7 = None,
     Parent = None, Name = None\<rparr>"

definition overlap_table :: "row list" where
  "overlap_table =
     [cat_row ''PWY-1'' ''Biosynthesis'',
      cat_row ''PWY-1'' ''Degradation/Utilization/Assimilation'',
      cat_row ''PWY-2'' ''Degradation/Utilization/Assimilation'',
      cat_row ''PWY-2'' ''Generation of Precursor Metabolites and Energy'',
      cat_row ''PWY-3'' ''Biosynthesis'',
      cat_row ''PWY-4'' ''Superpathways'']"

text \<open>The pathway \<open>p\<close> has a row of the table whose \<open>Category1\<close> is one of \<open>cats\<close>.\<close>

definition listed_under :: "row list \<Rightarrow> string list \<Rightarrow> string \<Rightarrow> bool" where
  "listed_under metacyc_df cats p =
     (\<exists>r \<in> set metacyc_df. Pathway r = p \<and> isin (Category1 r) cats)"

text \<open>
  The names of the levels that the inner loop of \<open>add_subset\<close> walks for the row \<open>r\<close>, from
  \<open>previous\<close> on.
\<close>

fun level_nodes :: "row \<Rightarrow> string \<Rightarrow> (nat \<times> (row \<Rightarrow> cell)) list \<Rightarrow> string list" where
  "level_nodes r previous [] = []"
| "level_nodes r previous ((i, c) # cs) =
     (let current = level_name (case c r of None \<Rightarrow> previous | Some s \<Rightarrow> s) i
      in current # level_nodes r current cs)"

text \<open>
  The walk of a listed pathway \<open>p\<close>: the root, the six category levels, the parent and the
  pathway. It is empty where the pathway has no row or no parent.
\<close>

definition pathway_walk :: "string \<Rightarrow> row list \<Rightarrow> string \<Rightarrow> string list" where
  "pathway_walk root' df p =
     (case groupby_first df p of
        None \<Rightarrow> []
      | Some r \<Rightarrow>
          (case Parent r of
             None \<Rightarrow> []
           | Some parent \<Rightarrow>
               root' # level_nodes r root' category_columns @ [level_name parent 8, p]))"

definition subset_walks :: "string \<Rightarrow> string list \<Rightarrow> row list \<Rightarrow> string list list" where
  "subset_walks root' pwys metacyc_df =
     map (pathway_walk root'
            (filter (\<lambda>r. Category1 r = Some root' \<and> Pathway r \<in> set pwys) metacyc_df))
       pwys"

text \<open>The edges of a walk: each node to the next.\<close>

fun walk_edges :: "'a list \<Rightarrow> ('a \<times> 'a) set" where
  "walk_edges [] = {}"
| "walk_edges [x] = {}"
| "walk_edges (x # y # zs) = insert (x, y) (walk_edges (y # zs))"

text \<open>
  Every listed pathway has a row with \<open>Category1\<close> equal to the root and with a parent and a
  name that are not NaN.
\<close>

definition listed_rows_ok :: "string \<Rightarrow> string list \<Rightarrow> row list \<Rightarrow> bool" where
  "listed_rows_ok root' pwys metacyc_df =
     (\<forall>p \<in> set pwys. \<exists>r \<in> set metacyc_df.
        Pathway r = p \<and> Category1 r = Some root' \<and> Parent r \<noteq> None \<and> Name r \<noteq> None)"

text \<open>
  The walks agree: a node that two walks reach (or one walk twice) is reached at the same
  depth and from the same node.
\<close>

definition consistent_walks :: "string list list \<Rightarrow> bool" where
  "consistent_walks ws =
     (\<forall>P \<in> set ws. \<forall>Q \<in> set ws. \<forall>j \<in> {0 ..< length P}. \<forall>k \<in> {0 ..< length Q}.
        P ! j = Q ! k \<longrightarrow> j = k \<and> (0 < j \<longrightarrow> P ! (j - 1) = Q ! (k - 1)))"

text \<open>The number of edges that end in \<open>v\<close>.\<close>

definition in_degree :: "'c digraph \<Rightarrow> string \<Rightarrow> nat" where
  "in_degree dg v = card (fst ` Set.filter (\<lambda>e. snd e = v) (edge dg))"

text \<open>
  A tree rooted at the root, as the specification spells it out: no cycle, and exactly one
  edge into every node other than the root.
\<close>

definition is_tree :: "string \<Rightarrow> 'c digraph \<Rightarrow> bool" where
  "is_tree root' dg =
     (acyclic (edge dg) \<and> (\<forall>v \<in> set (nodes_of dg). v \<noteq> root' \<longrightarrow> in_degree dg v = 1))"

text \<open>
  A table of two pathways of the root \<open>R\<close>, for the columns \<open>Category2\<close>, \<open>Category3\<close> and
  \<open>Parent\<close>; the other categories are NaN.
\<close>

definition path_row :: "string \<Rightarrow> cell \<Rightarrow> cell \<Rightarrow> cell \<Rightarrow> row" where
  "path_row p c2 c3 parent =
     \<lparr>Pathway = p, Category1 = Some ''R'', Category2 = c2, Category3 = c3, Category4 = None,
      Category5 = None, Category6 = None, Category7 = None, Parent = parent, Name = Some p\<rparr>"

text \<open>Two pathways below the same second level.\<close>

definition hierarchy_table :: "row list" where
  "hierarchy_table =
     [path_row ''P1'' (Some ''A'') (Some ''X'') (Some ''U''),
      path_row ''P2'' (Some ''A'') (Some ''Y'') (Some ''V'')]"

text \<open>Two pathways with the same third level below two different second levels.\<close>

definition shared_level_table :: "row list" where
  "shared_level_table =
     [path_row ''P1'' (Some ''A'') (Some ''X'') (Some ''U''),
      path_row ''P2'' (Some ''B'') (Some ''X'') (Some ''V'')]"

text \<open>A pathway whose parent is NaN in every row.\<close>

definition no_parent_table :: "row list" where
  "no_parent_table = [path_row ''P1'' (Some ''A'') None None]"

text \<open>A second pathway whose parent is NaN in every row.\<close>

definition late_nan_table :: "row list" where
  "late_nan_table =
     [path_row ''P1'' (Some ''A'') (Some ''X'') (Some ''U''),
      path_row ''P2'' (Some ''A'') (Some ''Y'') None]"

section \<open>Properties of \<open>make_shells\<close>\<close>

lemma slice_to_from: "slice_to xs k @ slice_from xs k = xs"
  by (simp add: slice_to_def slice_from_def)

lemma length_fill_shells:
  "length (fill_shells num_shells nps is shells nodes) = length shells"
  by (induction "is" arbitrary: shells nodes) simp_all

lemma fill_shells_nth_other:
  "\<forall>i \<in> set is. j \<noteq> i - 1 \<Longrightarrow>
     fill_shells num_shells nps is shells nodes ! j = shells ! j"
  by (induction "is" arbitrary: shells nodes) simp_all

lemma rest_nodes_same: "rest_nodes nps a a nodes = nodes"
  by (simp add: rest_nodes_def)

lemma rest_nodes_step_left:
  "a < i \<Longrightarrow> rest_nodes nps a i nodes = rest_nodes nps (Suc a) i (slice_from nodes (num_nodes nps a))"
  by (simp add: rest_nodes_def upt_conv_Cons)

lemma rest_nodes_step_right:
  "a \<le> i \<Longrightarrow> rest_nodes nps a (Suc i) nodes = slice_from (rest_nodes nps a i nodes) (num_nodes nps i)"
  by (simp add: rest_nodes_def)

lemma fill_shells_nth:
  assumes "length shells = n" and "1 \<le> a" and "a \<le> i" and "i \<le> n"
  shows "fill_shells (int n) nps [a ..< Suc n] shells nodes ! (i - 1) =
           (if i = n then rest_nodes nps a i nodes
            else slice_to (rest_nodes nps a i nodes) (num_nodes nps i))"
  using assms
proof (induction "n - a" arbitrary: a shells nodes)
  case 0
  then have "a = n" "i = n" by simp_all
  with 0 show ?case by (simp add: rest_nodes_same)
next
  case (Suc d)
  then have an: "a < n" by simp
  have untouched: "\<forall>i' \<in> set [Suc a ..< Suc n]. a - 1 \<noteq> i' - 1"
    using Suc.prems by auto
  show ?case
  proof (cases "i = a")
    case True
    with an Suc.prems untouched show ?thesis
      by (simp add: upt_conv_Cons fill_shells_nth_other rest_nodes_same)
  next
    case False
    with Suc.prems have ai: "Suc a \<le> i" "a < i" by simp_all
    have d: "d = n - Suc a" using Suc.hyps(2) by simp
    have "fill_shells (int n) nps [Suc a ..< Suc n]
            (shells[a - 1 := slice_to nodes (num_nodes nps a)])
            (slice_from nodes (num_nodes nps a)) ! (i - 1) =
          (if i = n then rest_nodes nps (Suc a) i (slice_from nodes (num_nodes nps a))
           else slice_to (rest_nodes nps (Suc a) i (slice_from nodes (num_nodes nps a)))
                  (num_nodes nps i))"
      using Suc.hyps(1)[OF d _ _ ai(1) Suc.prems(4)] Suc.prems(1) by simp
    with an ai show ?thesis
      by (simp add: upt_conv_Cons rest_nodes_step_left)
  qed
qed

lemma concat_take_fill_shells:
  assumes "length shells = n" and "i \<le> n" and "1 \<le> i"
  shows "concat (take (i - 1) (fill_shells (int n) nps [1 ..< Suc n] shells nodes))
           @ rest_nodes nps 1 i nodes = nodes"
  using assms(2,3)
proof (induction i)
  case 0
  then show ?case by simp
next
  case (Suc i)
  let ?res = "fill_shells (int n) nps [1 ..< Suc n] shells nodes"
  show ?case
  proof (cases "i = 0")
    case True
    then show ?thesis by (simp add: rest_nodes_same)
  next
    case False
    with Suc.prems have i: "1 \<le> i" "i \<le> n" "i < n" "i - 1 < length ?res"
      by (simp_all add: length_fill_shells assms(1))
    have nth: "?res ! (i - 1) = slice_to (rest_nodes nps 1 i nodes) (num_nodes nps i)"
      using fill_shells_nth[where a=1 and i=i and n=n and shells=shells] assms(1) i by simp
    have "take i ?res = take (i - 1) ?res @ [?res ! (i - 1)]"
      using take_Suc_conv_app_nth[OF i(4)] i(1) by simp
    then have "concat (take i ?res) @ rest_nodes nps 1 (Suc i) nodes =
               concat (take (i - 1) ?res) @ rest_nodes nps 1 i nodes"
      using nth i(1) by (simp add: rest_nodes_step_right slice_to_from)
    with Suc.IH i show ?thesis by simp
  qed
qed

lemma np_round_nonneg: "0 \<le> x \<Longrightarrow> 0 \<le> np_round x"
  by (simp add: np_round_def Let_def)

lemma np_round_le_int:
  assumes "x \<le> of_int m"
  shows "np_round x \<le> of_int m"
proof -
  have f: "\<lfloor>x\<rfloor> \<le> m" using assms by (simp add: floor_le_iff)
  show ?thesis
  proof (cases "x - of_int \<lfloor>x\<rfloor> < 1 / 2")
    case True
    with f show ?thesis by (simp add: np_round_def Let_def)
  next
    case False
    then have "of_int \<lfloor>x\<rfloor> < x" by linarith
    with assms have "rat_of_int \<lfloor>x\<rfloor> < of_int m" by linarith
    then have "\<lfloor>x\<rfloor> + 1 \<le> m" by simp
    then have "rat_of_int (\<lfloor>x\<rfloor> + 1) \<le> of_int m" "rat_of_int \<lfloor>x\<rfloor> \<le> of_int m"
      by (simp_all only: of_int_le_iff)
    then show ?thesis by (simp add: np_round_def Let_def)
  qed
qed

lemma np_round_is_int: "\<exists>m. np_round x = of_int m"
  by (simp add: np_round_def Let_def)

lemma num_nodes_nonneg:
  assumes "0 \<le> m" and "1 \<le> i"
  shows "0 \<le> num_nodes (of_int m) i"
proof -
  let ?n = "rat_of_int m"
  have n0: "0 \<le> ?n" using assms(1) by simp
  have "(of_nat i :: rat) / of_nat (i + 1) \<le> 1" by simp
  then have "?n * (of_nat i / of_nat (i + 1)) \<le> ?n * 1"
    using n0 by (rule mult_left_mono)
  then have out: "np_round (?n * (of_nat i / of_nat (i + 1))) \<le> ?n"
    by (simp add: np_round_le_int)
  have "0 \<le> ?n * (of_nat (i - 1) / of_nat i)" using n0 by simp
  then have inn: "0 \<le> np_round (?n * (of_nat (i - 1) / of_nat i))"
    by (rule np_round_nonneg)
  define a where "a = (if i = 1 then 0 else np_round (?n * (of_nat (i - 1) / of_nat i)))"
  define b where "b = np_round (?n * (of_nat i / of_nat (i + 1)))"
  have "0 \<le> a" using inn by (simp add: a_def)
  moreover have "b \<le> ?n" using out by (simp add: b_def)
  ultimately have "0 \<le> a + ?n - b" by linarith
  then have "0 \<le> py_int (a + ?n - b)" by (simp add: py_int_def)
  then show ?thesis
    unfolding num_nodes_def Let_def a_def b_def .
qed

lemma np_round_0: "np_round 0 = 0"
  by (simp add: np_round_def)

lemma num_nodes_target_count: "1 \<le> i \<Longrightarrow> num_nodes nps i = target_count nps i"
  by (simp add: num_nodes_def target_count_def Let_def np_round_0)

lemma make_shells_Inr:
  "1 \<le> num_shells \<Longrightarrow>
     make_shells num_shells nodes =
       Inr (fill_shells (int (nat num_shells))
              (np_round (of_nat (length nodes) / of_int num_shells))
              [1 ..< Suc (nat num_shells)] (replicate (nat num_shells) []) nodes)"
  by (simp add: make_shells_def Let_def)

text \<open>
  C4: for every \<open>num_shells \<ge> 1\<close> and every list of nodes, also an empty one or one with
  fewer nodes than shells, \<open>make_shells\<close> returns a list of exactly \<open>num_shells\<close> shells.
\<close>

theorem make_shells_length:
  "1 \<le> num_shells \<Longrightarrow>
     \<exists>shells. make_shells num_shells nodes = Inr shells \<and> int (length shells) = num_shells"
  by (simp add: make_shells_Inr length_fill_shells)

theorem make_shells_length_witness:
  "\<exists>shells. make_shells 4 [''a'', ''b''] = Inr shells \<and> int (length shells) = 4"
  using make_shells_length [of 4 "[''a'', ''b'']"] by simp

text \<open>
  C1: for every \<open>num_shells \<ge> 1\<close> and every list of nodes, the shells that \<open>make_shells\<close>
  returns, concatenated in order, are the input list: no node is dropped, duplicated or
  moved.
\<close>

theorem make_shells_concat:
  assumes "1 \<le> num_shells"
  shows "\<exists>shells. make_shells num_shells nodes = Inr shells \<and> concat shells = nodes"
proof -
  define n where "n = nat num_shells"
  define nps where "nps = np_round (of_nat (length nodes) / of_int num_shells)"
  define shells where "shells = fill_shells (int n) nps [1 ..< Suc n] (replicate n []) nodes"
  have n: "1 \<le> n" using assms by (simp add: n_def)
  have len: "length shells = n" by (simp add: shells_def length_fill_shells)
  have res: "make_shells num_shells nodes = Inr shells"
    using assms by (simp add: make_shells_Inr shells_def n_def nps_def)
  have last: "shells ! (n - 1) = rest_nodes nps 1 n nodes"
    using fill_shells_nth [where a = 1 and i = n and n = n and shells = "replicate n []"] n
    by (simp add: shells_def)
  have pre: "concat (take (n - 1) shells) @ rest_nodes nps 1 n nodes = nodes"
    using concat_take_fill_shells [where i = n and n = n and shells = "replicate n []"] n
    by (simp add: shells_def)
  have "shells = take (n - 1) shells @ [shells ! (n - 1)]"
    using take_Suc_conv_app_nth [of "n - 1" shells] len n by simp
  then have "concat shells = concat (take (n - 1) shells) @ shells ! (n - 1)"
    by (metis concat.simps(1) concat.simps(2) concat_append append_Nil2)
  with last pre have "concat shells = nodes" by simp
  with res show ?thesis by blast
qed

theorem make_shells_concat_witness:
  "\<exists>shells. make_shells 3 [''a'', ''b'', ''c'', ''d''] = Inr shells
      \<and> concat shells = [''a'', ''b'', ''c'', ''d'']"
  using make_shells_concat [of 3 "[''a'', ''b'', ''c'', ''d'']"] by simp

lemma nodes_per_shell_int:
  assumes "1 \<le> num_shells"
  shows "\<exists>m\<ge>0. np_round (of_nat t / of_int num_shells) = of_int m"
proof -
  let ?x = "rat_of_nat t / of_int num_shells"
  have "0 \<le> ?x" using assms by simp
  then have nn: "0 \<le> np_round ?x" by (rule np_round_nonneg)
  obtain m where m: "np_round ?x = of_int m" using np_round_is_int by blast
  with nn have "0 \<le> m" by simp
  with m show ?thesis by blast
qed

text \<open>
  C3: with \<open>nodes_per_shell = round(total_nodes / num_shells)\<close>, every shell \<open>i\<close> with
  \<open>1 \<le> i < num_shells\<close> is the prefix of the nodes not yet assigned that has the target
  count of \<open>i\<close> as its length, or all of them if they are fewer; the last shell is all the
  nodes not yet assigned. The nodes not yet assigned at shell \<open>i\<close> are the input without
  the nodes of the shells before \<open>i\<close>.
\<close>

theorem make_shells_target_counts:
  assumes "1 \<le> num_shells"
  shows "\<exists>shells. make_shells num_shells nodes = Inr shells \<and>
           (\<forall>i. 1 \<le> i \<and> int i < num_shells \<longrightarrow>
              (let rest = drop (length (concat (take (i - 1) shells))) nodes;
                   k = target_count (np_round (of_nat (length nodes) / of_int num_shells)) i
               in shells ! (i - 1) = take (nat k) rest \<and>
                  int (length (shells ! (i - 1))) = min k (int (length rest)))) \<and>
           shells ! (nat num_shells - 1) =
             drop (length (concat (take (nat num_shells - 1) shells))) nodes"
proof -
  define n where "n = nat num_shells"
  define nps where "nps = np_round (of_nat (length nodes) / of_int num_shells)"
  define shells where "shells = fill_shells (int n) nps [1 ..< Suc n] (replicate n []) nodes"
  have n: "1 \<le> n" "num_shells = int n" using assms by (simp_all add: n_def)
  have res: "make_shells num_shells nodes = Inr shells"
    using assms by (simp add: make_shells_Inr shells_def n_def nps_def)
  obtain m where m: "0 \<le> m" "nps = of_int m"
    using nodes_per_shell_int [OF assms] unfolding nps_def by blast
  have rest: "rest_nodes nps 1 i nodes = drop (length (concat (take (i - 1) shells))) nodes"
    if "1 \<le> i" "i \<le> n" for i
  proof -
    have "concat (take (i - 1) shells) @ rest_nodes nps 1 i nodes = nodes"
      using concat_take_fill_shells [where i = i and n = n and shells = "replicate n []"] that
      by (simp add: shells_def)
    then show ?thesis by (metis append_eq_conv_conj)
  qed
  have inner: "shells ! (i - 1) = take (nat (target_count nps i))
                  (drop (length (concat (take (i - 1) shells))) nodes) \<and>
               int (length (shells ! (i - 1))) =
                  min (target_count nps i)
                    (int (length (drop (length (concat (take (i - 1) shells))) nodes)))"
    if i: "1 \<le> i" "int i < num_shells" for i
  proof -
    from i n have le: "i \<le> n" "i \<noteq> n" by simp_all
    have k: "0 \<le> num_nodes nps i" using num_nodes_nonneg [OF m(1) i(1)] m(2) by simp
    have "shells ! (i - 1) = slice_to (rest_nodes nps 1 i nodes) (num_nodes nps i)"
      using fill_shells_nth [where a = 1 and i = i and n = n and shells = "replicate n []"] i(1) le
      by (simp add: shells_def)
    then have "shells ! (i - 1) = take (nat (num_nodes nps i)) (rest_nodes nps 1 i nodes)"
      using k by (simp add: slice_to_def slice_index_def)
    then have eq: "shells ! (i - 1) = take (nat (target_count nps i))
                     (drop (length (concat (take (i - 1) shells))) nodes)"
      using rest [OF i(1) le(1)] num_nodes_target_count [OF i(1)] by simp
    have "0 \<le> target_count nps i" using k num_nodes_target_count [OF i(1)] by simp
    then have "int (length (take (nat (target_count nps i))
                     (drop (length (concat (take (i - 1) shells))) nodes))) =
               min (target_count nps i)
                 (int (length (drop (length (concat (take (i - 1) shells))) nodes)))"
      by (simp only: length_take)
    with eq show ?thesis by simp
  qed
  have "shells ! (n - 1) = rest_nodes nps 1 n nodes"
    using fill_shells_nth [where a = 1 and i = n and n = n and shells = "replicate n []"] n(1)
    by (simp add: shells_def)
  also have "\<dots> = drop (length (concat (take (n - 1) shells))) nodes"
    using n(1) by (intro rest) simp_all
  finally have last: "shells ! (n - 1) = drop (length (concat (take (n - 1) shells))) nodes" .
  from res inner last show ?thesis
    unfolding Let_def nps_def [symmetric] n_def [symmetric] by blast
qed

theorem make_shells_target_counts_witness:
  "\<exists>shells. make_shells 3 [1, 2, 3, 4, 5, 6, 7, 8, 9, 10 :: nat] = Inr shells \<and>
     shells ! 0 = take (nat (target_count (np_round (10 / 3)) 1)) [1, 2, 3, 4, 5, 6, 7, 8, 9, 10] \<and>
     shells ! 1 = take (nat (target_count (np_round (10 / 3)) 2))
                    (drop (length (shells ! 0)) [1, 2, 3, 4, 5, 6, 7, 8, 9, 10]) \<and>
     shells ! 2 = drop (length (shells ! 0) + length (shells ! 1)) [1, 2, 3, 4, 5, 6, 7, 8, 9, 10]"
proof -
  let ?xs = "[1, 2, 3, 4, 5, 6, 7, 8, 9, 10 :: nat]"
  obtain shells where s: "make_shells 3 ?xs = Inr shells"
    and each: "\<And>i. 1 \<le> i \<and> int i < 3 \<Longrightarrow>
              (let rest = drop (length (concat (take (i - 1) shells))) ?xs;
                   k = target_count (np_round (of_nat (length ?xs) / of_int 3)) i
               in shells ! (i - 1) = take (nat k) rest \<and>
                  int (length (shells ! (i - 1))) = min k (int (length rest)))"
    and last: "shells ! (nat 3 - 1) = drop (length (concat (take (nat 3 - 1) shells))) ?xs"
    using make_shells_target_counts [of 3 ?xs] by auto
  have len: "length shells = 3"
    using s by (auto simp: make_shells_def Let_def length_fill_shells)
  then obtain a b c where abc: "shells = [a, b, c]"
    by (metis length_0_conv length_Suc_conv numeral_3_eq_3)
  from each [of 1] each [of 2] last abc s show ?thesis
    by (simp add: Let_def)
qed

section \<open>Properties of the graph updates\<close>

lemma set_attr_Inr:
  assumes "map_of (node g) n = Some a"
  shows "set_attr n k v g = Inr (g\<lparr>node := AList.update n (a(k \<mapsto> v)) (node g)\<rparr>)"
  using assms by (simp add: set_attr_def)

lemma set_attr_Inl: "map_of (node g) n = None \<Longrightarrow> set_attr n k v g = Inl (KeyError n)"
  by (simp add: set_attr_def)

lemma set_attr_frame:
  assumes "set_attr n k v g = Inr g'"
  shows "edge g' = edge g" and "nodes_of g' = nodes_of g"
    and "node_attr g' m j = (if m = n \<and> j = k then Some v else node_attr g m j)"
proof -
  from assms obtain a where a: "map_of (node g) n = Some a"
    and g': "g' = g\<lparr>node := AList.update n (a(k \<mapsto> v)) (node g)\<rparr>"
    by (auto simp: set_attr_def split: option.splits)
  from a have "n \<in> fst ` set (node g)" by (metis map_of_eq_None_iff option.distinct(1))
  then show "nodes_of g' = nodes_of g" by (simp add: g' nodes_of_def update_keys)
  show "edge g' = edge g" by (simp add: g')
  show "node_attr g' m j = (if m = n \<and> j = k then Some v else node_attr g m j)"
    using a by (simp add: g' node_attr_def update_conv')
qed

lemma node_attr_in_graph: "node_attr g n k = Some v \<Longrightarrow> map_of (node g) n \<noteq> None"
  by (auto simp: node_attr_def split: option.splits)

lemma assign_weights_loop_frame:
  assumes "set ns \<subseteq> set (nodes_of g)"
  shows "\<exists>g'. assign_weights_loop d ns g = Inr g' \<and> nodes_of g' = nodes_of g \<and> edge g' = edge g \<and>
           (\<forall>n k. node_attr g' n k =
              (if n \<in> set ns \<and> k = ''weight'' then Some (Num (case d n of None \<Rightarrow> 0 | Some w \<Rightarrow> w))
               else node_attr g n k))"
  using assms
proof (induction ns arbitrary: g)
  case Nil
  then show ?case by simp
next
  case (Cons n ns)
  let ?w = "case d n of None \<Rightarrow> 0 | Some w \<Rightarrow> w"
  from Cons.prems have "n \<in> fst ` set (node g)" by (simp add: nodes_of_def)
  then obtain a where a: "map_of (node g) n = Some a"
    by (metis map_of_eq_None_iff not_Some_eq)
  define g1 where "g1 = g\<lparr>node := AList.update n (a(''weight'' \<mapsto> Num ?w)) (node g)\<rparr>"
  have step: "set_attr n ''weight'' (Num ?w) g = Inr g1"
    using a by (simp add: set_attr_Inr g1_def)
  note fr = set_attr_frame [OF step]
  from Cons.prems fr(2) have "set ns \<subseteq> set (nodes_of g1)" by simp
  from Cons.IH [OF this] obtain g' where g': "assign_weights_loop d ns g1 = Inr g'"
    "nodes_of g' = nodes_of g1" "edge g' = edge g1"
    "\<forall>m k. node_attr g' m k =
              (if m \<in> set ns \<and> k = ''weight'' then Some (Num (case d m of None \<Rightarrow> 0 | Some w \<Rightarrow> w))
               else node_attr g1 m k)"
    by blast
  have "assign_weights_loop d (n # ns) g = Inr g'"
    using step g'(1) by (simp add: Let_def)
  moreover have "\<forall>m k. node_attr g' m k =
              (if m \<in> set (n # ns) \<and> k = ''weight'' then Some (Num (case d m of None \<Rightarrow> 0 | Some w \<Rightarrow> w))
               else node_attr g m k)"
    using g'(4) fr(3) by auto
  ultimately show ?case using g'(2,3) fr(1,2) by simp
qed

section \<open>Properties of \<open>assign_node_weights\<close>\<close>

text \<open>
  C8: for every graph \<open>g\<close> and every count mapping \<open>d\<close>, \<open>assign_node_weights\<close> returns
  (it does not fail on a node that is not a key of \<open>d\<close>), the nodes and edges are as before,
  every node \<open>n\<close> of \<open>g\<close> has the weight \<open>d[n]\<close> when \<open>n\<close> is a key of \<open>d\<close> and 0 when it is
  not, and no other attribute of a node is changed.
\<close>

theorem assign_node_weights_total:
  "\<exists>g'. assign_node_weights g d = Inr g' \<and> nodes_of g' = nodes_of g \<and> edge g' = edge g \<and>
     (\<forall>n \<in> set (nodes_of g).
        (\<forall>w. d n = Some w \<longrightarrow> node_attr g' n ''weight'' = Some (Num w)) \<and>
        (d n = None \<longrightarrow> node_attr g' n ''weight'' = Some (Num 0)) \<and>
        (\<forall>k. k \<noteq> ''weight'' \<longrightarrow> node_attr g' n k = node_attr g n k))"
proof -
  from assign_weights_loop_frame [of "nodes_of g" g d]
  obtain g' where g': "assign_weights_loop d (nodes_of g) g = Inr g'"
    "nodes_of g' = nodes_of g" "edge g' = edge g"
    "\<forall>n k. node_attr g' n k =
              (if n \<in> set (nodes_of g) \<and> k = ''weight''
               then Some (Num (case d n of None \<Rightarrow> 0 | Some w \<Rightarrow> w))
               else node_attr g n k)"
    by blast
  then show ?thesis by (auto simp: assign_node_weights_def)
qed

theorem assign_node_weights_total_witness:
  "\<exists>g'. assign_node_weights two_nodes a_count = Inr g' \<and>
     nodes_of g' = [''a'', ''b''] \<and> edge g' = {(''a'', ''b'')} \<and>
     node_attr g' ''a'' ''weight'' = Some (Num 7) \<and>
     node_attr g' ''b'' ''weight'' = Some (Num 0) \<and>
     node_attr g' ''b'' ''col'' = Some (Str ''r'')"
proof -
  from assign_node_weights_total [of two_nodes a_count]
  obtain g' where g': "assign_node_weights two_nodes a_count = Inr g'"
    "nodes_of g' = nodes_of two_nodes" "edge g' = edge two_nodes"
    and each: "\<forall>n \<in> set (nodes_of two_nodes).
        (\<forall>w. a_count n = Some w \<longrightarrow> node_attr g' n ''weight'' = Some (Num w)) \<and>
        (a_count n = None \<longrightarrow> node_attr g' n ''weight'' = Some (Num 0)) \<and>
        (\<forall>k. k \<noteq> ''weight'' \<longrightarrow> node_attr g' n k = node_attr two_nodes n k)"
    by (elim exE conjE)
  have n: "nodes_of two_nodes = [''a'', ''b'']" by (simp add: nodes_of_def two_nodes_def)
  have a: "a_count ''a'' = Some 7" and b: "a_count ''b'' = None" by (simp_all add: a_count_def)
  have ina: "''a'' \<in> set (nodes_of two_nodes)" using n by simp
  have inb: "''b'' \<in> set (nodes_of two_nodes)" using n by simp
  note ea = bspec [OF each ina] and eb = bspec [OF each inb]
  from ea a have wa: "node_attr g' ''a'' ''weight'' = Some (Num 7)" by simp
  from eb b have wb: "node_attr g' ''b'' ''weight'' = Some (Num 0)" by simp
  from eb have "node_attr g' ''b'' ''col'' = node_attr two_nodes ''b'' ''col''" by simp
  also have "\<dots> = Some (Str ''r'')" by (simp add: two_nodes_def node_attr_def)
  finally have cb: "node_attr g' ''b'' ''col'' = Some (Str ''r'')" .
  have e: "edge two_nodes = {(''a'', ''b'')}" by (simp add: two_nodes_def)
  from g' n e wa wb cb show ?thesis by simp
qed

section \<open>Properties of \<open>shift_nodes\<close>\<close>

lemma shift_nodes_Cons:
  assumes "node_attr g n ''pos'' = Some (Pos xn yn)"
  shows "\<exists>g1. set_attr n ''pos'' (Pos (xn + x) (yn + y)) g = Inr g1 \<and>
               shift_nodes g (n # ns) x y = shift_nodes g1 ns x y"
proof -
  from assms obtain a where a: "map_of (node g) n = Some a" "a ''pos'' = Some (Pos xn yn)"
    by (auto simp: node_attr_def split: option.splits)
  then show ?thesis by (simp add: set_attr_Inr)
qed

lemma shift_nodes_distinct:
  assumes "distinct ns"
    and "\<forall>n \<in> set ns. \<exists>xn yn. node_attr g n ''pos'' = Some (Pos xn yn)"
  shows "\<exists>g'. shift_nodes g ns x y = Inr g' \<and> edge g' = edge g \<and> nodes_of g' = nodes_of g \<and>
           (\<forall>n k. node_attr g' n k =
              (if n \<in> set ns \<and> k = ''pos''
               then (case node_attr g n ''pos'' of
                       Some (Pos xn yn) \<Rightarrow> Some (Pos (xn + x) (yn + y))
                     | other \<Rightarrow> other)
               else node_attr g n k))"
  using assms
proof (induction ns arbitrary: g)
  case Nil
  then show ?case by simp
next
  case (Cons n ns)
  from Cons.prems(2) obtain xn yn where pos: "node_attr g n ''pos'' = Some (Pos xn yn)"
    by auto
  from shift_nodes_Cons [OF pos, of x y ns]
  obtain g1 where g1: "set_attr n ''pos'' (Pos (xn + x) (yn + y)) g = Inr g1"
    and run: "shift_nodes g (n # ns) x y = shift_nodes g1 ns x y"
    by (elim exE conjE)
  note fr = set_attr_frame [OF g1]
  from Cons.prems(1) have n: "n \<notin> set ns" and d: "distinct ns" by simp_all
  have "\<forall>m \<in> set ns. \<exists>xm ym. node_attr g1 m ''pos'' = Some (Pos xm ym)"
    using Cons.prems(2) n by (auto simp: fr(3))
  from Cons.IH [OF d this] obtain g' where g': "shift_nodes g1 ns x y = Inr g'"
    "edge g' = edge g1" "nodes_of g' = nodes_of g1"
    and attrs: "\<forall>m k. node_attr g' m k =
              (if m \<in> set ns \<and> k = ''pos''
               then (case node_attr g1 m ''pos'' of
                       Some (Pos xn yn) \<Rightarrow> Some (Pos (xn + x) (yn + y))
                     | other \<Rightarrow> other)
               else node_attr g1 m k)"
    by (elim exE conjE)
  have "node_attr g' m k =
              (if m \<in> set (n # ns) \<and> k = ''pos''
               then (case node_attr g m ''pos'' of
                       Some (Pos xn yn) \<Rightarrow> Some (Pos (xn + x) (yn + y))
                     | other \<Rightarrow> other)
               else node_attr g m k)" for m k
  proof (cases "m = n")
    case True
    with n pos show ?thesis by (simp add: attrs fr(3))
  next
    case False
    then show ?thesis by (simp add: attrs fr(3))
  qed
  with run g' fr(1,2) show ?case by simp
qed

text \<open>
  C9, amended: for every graph \<open>g\<close> and every list of nodes without repetition whose nodes all
  carry a position, \<open>shift_nodes\<close> returns, each listed node's position is its old position
  translated by \<open>(x, y)\<close>, and the position of every node not in the list, every other
  attribute of a node, the nodes and the edges are unchanged.
\<close>

theorem shift_nodes_frame:
  assumes "distinct ns"
    and "\<forall>n \<in> set ns. \<exists>xn yn. node_attr g n ''pos'' = Some (Pos xn yn)"
  shows "\<exists>g'. shift_nodes g ns x y = Inr g' \<and> edge g' = edge g \<and> nodes_of g' = nodes_of g \<and>
           (\<forall>n \<in> set ns. \<forall>xn yn. node_attr g n ''pos'' = Some (Pos xn yn) \<longrightarrow>
                node_attr g' n ''pos'' = Some (Pos (xn + x) (yn + y))) \<and>
           (\<forall>n. n \<notin> set ns \<longrightarrow> node_attr g' n ''pos'' = node_attr g n ''pos'') \<and>
           (\<forall>n k. k \<noteq> ''pos'' \<longrightarrow> node_attr g' n k = node_attr g n k)"
proof -
  from shift_nodes_distinct [OF assms, of x y]
  obtain g' where g': "shift_nodes g ns x y = Inr g'" "edge g' = edge g" "nodes_of g' = nodes_of g"
    and attrs: "\<forall>n k. node_attr g' n k =
              (if n \<in> set ns \<and> k = ''pos''
               then (case node_attr g n ''pos'' of
                       Some (Pos xn yn) \<Rightarrow> Some (Pos (xn + x) (yn + y))
                     | other \<Rightarrow> other)
               else node_attr g n k)"
    by (elim exE conjE)
  have moved: "\<forall>n \<in> set ns. \<forall>xn yn. node_attr g n ''pos'' = Some (Pos xn yn) \<longrightarrow>
                node_attr g' n ''pos'' = Some (Pos (xn + x) (yn + y))"
    by (simp add: attrs)
  have others: "\<forall>n. n \<notin> set ns \<longrightarrow> node_attr g' n ''pos'' = node_attr g n ''pos''"
    by (simp add: attrs)
  have rest: "\<forall>n k. k \<noteq> ''pos'' \<longrightarrow> node_attr g' n k = node_attr g n k"
    by (simp add: attrs)
  from g' moved others rest show ?thesis by simp
qed

theorem shift_nodes_frame_witness:
  "\<exists>g'. shift_nodes two_nodes [''b''] 1 2 = Inr g' \<and>
      edge g' = {(''a'', ''b'')} \<and> nodes_of g' = [''a'', ''b''] \<and>
      node_attr g' ''b'' ''pos'' = Some (Pos 6 7) \<and>
      node_attr g' ''a'' ''pos'' = Some (Pos 0 0) \<and>
      node_attr g' ''b'' ''col'' = Some (Str ''r'')"
proof -
  have d: "distinct [''b'']" by simp
  have b: "node_attr two_nodes ''b'' ''pos'' = Some (Pos 5 5)"
    and a: "node_attr two_nodes ''a'' ''pos'' = Some (Pos 0 0)"
    and c: "node_attr two_nodes ''b'' ''col'' = Some (Str ''r'')"
    by (simp_all add: two_nodes_def node_attr_def)
  have p: "\<forall>n \<in> set [''b'']. \<exists>xn yn. node_attr two_nodes n ''pos'' = Some (Pos xn yn)"
    using b by simp
  from shift_nodes_frame [OF d p, of 1 2]
  obtain g' where g': "shift_nodes two_nodes [''b''] 1 2 = Inr g'"
    "edge g' = edge two_nodes" "nodes_of g' = nodes_of two_nodes"
    and moved: "\<forall>n \<in> set [''b'']. \<forall>xn yn. node_attr two_nodes n ''pos'' = Some (Pos xn yn) \<longrightarrow>
                node_attr g' n ''pos'' = Some (Pos (xn + 1) (yn + 2))"
    and others: "\<forall>n. n \<notin> set [''b''] \<longrightarrow> node_attr g' n ''pos'' = node_attr two_nodes n ''pos''"
    and rest: "\<forall>n k. k \<noteq> ''pos'' \<longrightarrow> node_attr g' n k = node_attr two_nodes n k"
    by (elim exE conjE)
  from moved b have "node_attr g' ''b'' ''pos'' = Some (Pos 6 7)" by simp
  moreover from others a have "node_attr g' ''a'' ''pos'' = Some (Pos 0 0)" by simp
  moreover from rest c have "node_attr g' ''b'' ''col'' = Some (Str ''r'')" by simp
  moreover have "edge two_nodes = {(''a'', ''b'')}" "nodes_of two_nodes = [''a'', ''b'']"
    by (simp_all add: two_nodes_def nodes_of_def)
  ultimately show ?thesis using g' by simp
qed

text \<open>
  C9 as stated, for every list of nodes, fails where the list names a node twice: the loop
  translates the node once for each occurrence.
\<close>

theorem shift_nodes_repeated_counterexample:
  "node_attr two_nodes ''a'' ''pos'' = Some (Pos 0 0) \<and>
   (case shift_nodes two_nodes [''a'', ''a''] 1 0 of
      Inl e \<Rightarrow> None
    | Inr g' \<Rightarrow> node_attr g' ''a'' ''pos'') = Some (Pos (0 + 1 + 1) (0 + 0 + 0)) \<and>
   Pos (0 + 1 + 1) (0 + 0 + 0) \<noteq> Pos (0 + 1) (0 + (0::int))"
  by (simp add: two_nodes_def node_attr_def set_attr_def)

section \<open>Properties of the pathway subsets\<close>

lemma pathways_in_iff: "p \<in> pathways_in df cats \<longleftrightarrow> listed_under df cats p"
  by (auto simp: pathways_in_def listed_under_def)

text \<open>
  C10: for every category table the sets \<open>core_pwys\<close>, \<open>deg_pwys\<close> and \<open>syn_pwys\<close> are
  pairwise disjoint, and the pathway of every row whose \<open>Category1\<close> is one of the three root
  categories is in exactly one of them. A pathway that is listed under several of the
  categories is kept in the core set first, then in the degradation set: the core set holds
  the pathways listed under the core category, the degradation set those listed under
  degradation and not under core, the biosynthesis set those listed under biosynthesis and
  under neither of the other two.
\<close>

theorem pathway_subsets_partition:
  "core_pwys df \<inter> deg_pwys df = {} \<and>
   core_pwys df \<inter> syn_pwys df = {} \<and>
   deg_pwys df \<inter> syn_pwys df = {} \<and>
   (\<forall>r \<in> set df. isin (Category1 r) (core @ syn @ deg) \<longrightarrow>
      (Pathway r \<in> core_pwys df \<and> Pathway r \<notin> deg_pwys df \<and> Pathway r \<notin> syn_pwys df) \<or>
      (Pathway r \<notin> core_pwys df \<and> Pathway r \<in> deg_pwys df \<and> Pathway r \<notin> syn_pwys df) \<or>
      (Pathway r \<notin> core_pwys df \<and> Pathway r \<notin> deg_pwys df \<and> Pathway r \<in> syn_pwys df)) \<and>
   (\<forall>p. (p \<in> core_pwys df) = listed_under df core p) \<and>
   (\<forall>p. (p \<in> deg_pwys df) = (listed_under df deg p \<and> \<not> listed_under df core p)) \<and>
   (\<forall>p. (p \<in> syn_pwys df) =
      (listed_under df syn p \<and> \<not> listed_under df core p \<and> \<not> listed_under df deg p))"
proof -
  have c: "(p \<in> core_pwys df) = listed_under df core p" for p
    by (simp add: core_pwys_def pathways_in_iff)
  have d: "(p \<in> deg_pwys df) = (listed_under df deg p \<and> \<not> listed_under df core p)" for p
    by (simp add: deg_pwys_def Let_def c pathways_in_iff)
  have s: "(p \<in> syn_pwys df) =
      (listed_under df syn p \<and> \<not> listed_under df core p \<and> \<not> listed_under df deg p)" for p
    by (auto simp: syn_pwys_def Let_def c d pathways_in_iff)
  have disjoint: "core_pwys df \<inter> deg_pwys df = {}" "core_pwys df \<inter> syn_pwys df = {}"
    "deg_pwys df \<inter> syn_pwys df = {}"
    by (auto simp: c d s)
  have one: "(Pathway r \<in> core_pwys df \<and> Pathway r \<notin> deg_pwys df \<and> Pathway r \<notin> syn_pwys df) \<or>
      (Pathway r \<notin> core_pwys df \<and> Pathway r \<in> deg_pwys df \<and> Pathway r \<notin> syn_pwys df) \<or>
      (Pathway r \<notin> core_pwys df \<and> Pathway r \<notin> deg_pwys df \<and> Pathway r \<in> syn_pwys df)"
    if r: "r \<in> set df" "isin (Category1 r) (core @ syn @ deg)" for r
  proof -
    from r(2) have "isin (Category1 r) core \<or> isin (Category1 r) syn \<or> isin (Category1 r) deg"
      by (auto simp: isin_def split: option.splits)
    with r(1) have "listed_under df core (Pathway r) \<or> listed_under df syn (Pathway r)
        \<or> listed_under df deg (Pathway r)"
      unfolding listed_under_def by blast
    then show ?thesis unfolding c d s by blast
  qed
  from disjoint one c d s show ?thesis by blast
qed

theorem pathway_subsets_partition_witness:
  "core_pwys overlap_table = {''PWY-2''} \<and>
   deg_pwys overlap_table = {''PWY-1''} \<and>
   syn_pwys overlap_table = {''PWY-3''} \<and>
   listed_under overlap_table syn ''PWY-1'' \<and>
   listed_under overlap_table deg ''PWY-1'' \<and>
   listed_under overlap_table deg ''PWY-2'' \<and>
   listed_under overlap_table core ''PWY-2'' \<and>
   Pathway (overlap_table ! 0) \<in> deg_pwys overlap_table \<and>
   Pathway (overlap_table ! 0) \<notin> syn_pwys overlap_table \<and>
   ''PWY-2'' \<notin> deg_pwys overlap_table"
proof -
  note all = pathway_subsets_partition [of overlap_table]
  have sets: "core_pwys overlap_table = {''PWY-2''}" "deg_pwys overlap_table = {''PWY-1''}"
    "syn_pwys overlap_table = {''PWY-3''}"
    by (auto simp: core_pwys_def deg_pwys_def syn_pwys_def pathways_in_def overlap_table_def
        cat_row_def isin_def core_def deg_def syn_def)
  have listed: "listed_under overlap_table syn ''PWY-1''" "listed_under overlap_table deg ''PWY-1''"
    "listed_under overlap_table deg ''PWY-2''" "listed_under overlap_table core ''PWY-2''"
    "\<not> listed_under overlap_table core ''PWY-1''"
    by (simp_all add: listed_under_def overlap_table_def cat_row_def isin_def core_def deg_def
        syn_def)
  have r: "overlap_table ! 0 \<in> set overlap_table" by (simp add: overlap_table_def)
  have cat: "isin (Category1 (overlap_table ! 0)) (core @ syn @ deg)"
    by (simp add: overlap_table_def cat_row_def isin_def syn_def)
  have p: "Pathway (overlap_table ! 0) = ''PWY-1''" by (simp add: overlap_table_def cat_row_def)
  from all have d: "(''PWY-1'' \<in> deg_pwys overlap_table) =
      (listed_under overlap_table deg ''PWY-1'' \<and> \<not> listed_under overlap_table core ''PWY-1'')"
    and d2: "(''PWY-2'' \<in> deg_pwys overlap_table) =
      (listed_under overlap_table deg ''PWY-2'' \<and> \<not> listed_under overlap_table core ''PWY-2'')"
    by simp_all
  from d listed have in_deg: "''PWY-1'' \<in> deg_pwys overlap_table" by simp
  from d2 listed have not_deg: "''PWY-2'' \<notin> deg_pwys overlap_table" by simp
  from all have each: "\<forall>r \<in> set overlap_table. isin (Category1 r) (core @ syn @ deg) \<longrightarrow>
      (Pathway r \<in> core_pwys overlap_table \<and> Pathway r \<notin> deg_pwys overlap_table \<and>
         Pathway r \<notin> syn_pwys overlap_table) \<or>
      (Pathway r \<notin> core_pwys overlap_table \<and> Pathway r \<in> deg_pwys overlap_table \<and>
         Pathway r \<notin> syn_pwys overlap_table) \<or>
      (Pathway r \<notin> core_pwys overlap_table \<and> Pathway r \<notin> deg_pwys overlap_table \<and>
         Pathway r \<in> syn_pwys overlap_table)"
    by (elim conjE)
  from bspec [OF each r, THEN mp, OF cat] in_deg p
  have "''PWY-1'' \<notin> syn_pwys overlap_table" by simp
  with sets listed in_deg not_deg p show ?thesis by simp
qed

section \<open>Properties of \<open>add_subset\<close>\<close>

lemma walk_edges_iff:
  "(u, v) \<in> walk_edges W \<longleftrightarrow> (\<exists>j. Suc j < length W \<and> u = W ! j \<and> v = W ! Suc j)"
proof (induction W rule: walk_edges.induct)
  case 1
  then show ?case by simp
next
  case (2 x)
  then show ?case by simp
next
  case (3 x y zs)
  show ?case
  proof
    assume "(u, v) \<in> walk_edges (x # y # zs)"
    then consider "u = x" "v = y" | "(u, v) \<in> walk_edges (y # zs)" by auto
    then show "\<exists>j. Suc j < length (x # y # zs) \<and> u = (x # y # zs) ! j \<and> v = (x # y # zs) ! Suc j"
    proof cases
      case 1
      then have "Suc 0 < length (x # y # zs) \<and> u = (x # y # zs) ! 0 \<and> v = (x # y # zs) ! Suc 0"
        by simp
      then show ?thesis by (rule exI)
    next
      case 2
      with "3.IH" obtain j where "Suc j < length (y # zs)" "u = (y # zs) ! j" "v = (y # zs) ! Suc j"
        by auto
      then have "Suc (Suc j) < length (x # y # zs) \<and> u = (x # y # zs) ! Suc j
                   \<and> v = (x # y # zs) ! Suc (Suc j)"
        by simp
      then show ?thesis by (rule exI)
    qed
  next
    assume "\<exists>j. Suc j < length (x # y # zs) \<and> u = (x # y # zs) ! j \<and> v = (x # y # zs) ! Suc j"
    then obtain j where j: "Suc j < length (x # y # zs)" "u = (x # y # zs) ! j"
      "v = (x # y # zs) ! Suc j" by auto
    show "(u, v) \<in> walk_edges (x # y # zs)"
    proof (cases j)
      case 0
      with j show ?thesis by simp
    next
      case (Suc i)
      with j have "Suc i < length (y # zs) \<and> u = (y # zs) ! i \<and> v = (y # zs) ! Suc i" by simp
      then have "(u, v) \<in> walk_edges (y # zs)" using "3.IH" by blast
      then show ?thesis by simp
    qed
  qed
qed

lemma walk_edges_snoc:
  "W \<noteq> [] \<Longrightarrow> walk_edges (W @ [a]) = insert (last W, a) (walk_edges W)"
proof (induction W rule: walk_edges.induct)
  case 1
  then show ?case by simp
next
  case (2 x)
  then show ?case by simp
next
  case (3 x y zs)
  then show ?case by auto
qed

lemma acyclic_by_rank:
  fixes rank :: "'a \<Rightarrow> nat"
  assumes "\<forall>(u, v) \<in> E. rank u < rank v"
  shows "acyclic E"
proof -
  have "E \<subseteq> measure rank" using assms by auto
  moreover have "acyclic (measure rank)" by (rule wf_acyclic) simp
  ultimately show ?thesis by (rule acyclic_subset [rotated])
qed

lemma consistent_walksD:
  assumes "consistent_walks ws" "P \<in> set ws" "Q \<in> set ws" "j < length P" "k < length Q"
    "P ! j = Q ! k"
  shows "j = k" and "0 < j \<Longrightarrow> P ! (j - 1) = Q ! (k - 1)"
proof -
  from assms(4,5) have "j \<in> {0 ..< length P}" "k \<in> {0 ..< length Q}" by simp_all
  with assms(1,2,3,6) have "j = k \<and> (0 < j \<longrightarrow> P ! (j - 1) = Q ! (k - 1))"
    unfolding consistent_walks_def by blast
  then show "j = k" and "0 < j \<Longrightarrow> P ! (j - 1) = Q ! (k - 1)" by blast+
qed

lemma consistent_walks_acyclic:
  assumes cons: "consistent_walks ws"
  shows "acyclic (\<Union>W \<in> set ws. walk_edges W)"
proof -
  define rank where "rank v = (LEAST j. \<exists>W \<in> set ws. j < length W \<and> W ! j = v)" for v
  have rank: "rank (W ! j) = j" if W: "W \<in> set ws" and j: "j < length W" for W j
  proof -
    have ex: "\<exists>Q \<in> set ws. j < length Q \<and> Q ! j = W ! j" using W j by blast
    have "\<exists>Q \<in> set ws. rank (W ! j) < length Q \<and> Q ! rank (W ! j) = W ! j"
      unfolding rank_def by (rule LeastI [of _ j]) (rule ex)
    then obtain Q where Q: "Q \<in> set ws" "rank (W ! j) < length Q" "Q ! rank (W ! j) = W ! j"
      by blast
    from consistent_walksD(1) [OF cons W Q(1) j Q(2) Q(3) [symmetric]] show ?thesis by simp
  qed
  have "\<forall>(u, v) \<in> (\<Union>W \<in> set ws. walk_edges W). rank u < rank v"
  proof (clarify)
    fix u v W
    assume W: "W \<in> set ws" and "(u, v) \<in> walk_edges W"
    then obtain j where j: "Suc j < length W" "u = W ! j" "v = W ! Suc j"
      by (auto simp: walk_edges_iff)
    from rank [OF W, of j] rank [OF W j(1)] j show "rank u < rank v" by simp
  qed
  then show ?thesis by (rule acyclic_by_rank)
qed

lemma consistent_walks_unique_pred:
  assumes cons: "consistent_walks ws"
    and start: "\<forall>W \<in> set ws. W \<noteq> [] \<and> W ! 0 = r"
    and v: "v \<in> (\<Union>W \<in> set ws. set W)" "v \<noteq> r"
  shows "\<exists>u. {u'. (u', v) \<in> (\<Union>W \<in> set ws. walk_edges W)} = {u}"
proof -
  from v(1) obtain W j where W: "W \<in> set ws" and j: "j < length W" "v = W ! j"
    by (auto simp: in_set_conv_nth)
  from start W v(2) j have j0: "0 < j" by (cases j) auto
  then obtain i where i: "j = Suc i" by (cases j) auto
  have edge: "(W ! i, v) \<in> (\<Union>W \<in> set ws. walk_edges W)"
    using W j i by (auto simp: walk_edges_iff)
  have only: "u' = W ! i" if "(u', v) \<in> (\<Union>W \<in> set ws. walk_edges W)" for u'
  proof -
    from that obtain Q k where Q: "Q \<in> set ws" and k: "Suc k < length Q" "u' = Q ! k" "v = Q ! Suc k"
      by (auto simp: walk_edges_iff)
    from j(2) k(3) have eq: "W ! j = Q ! Suc k" by simp
    from consistent_walksD [OF cons W Q j(1) k(1) eq] j0
    have "j = Suc k" "W ! (j - 1) = Q ! (Suc k - 1)" by simp_all
    with i k(2) show ?thesis by simp
  qed
  from edge only have "{u'. (u', v) \<in> (\<Union>W \<in> set ws. walk_edges W)} = {W ! i}" by blast
  then show ?thesis by (rule exI)
qed

lemma in_degree_one:
  assumes "{u'. (u', v) \<in> edge dg} = {u}"
  shows "in_degree dg v = 1"
proof -
  have "fst ` Set.filter (\<lambda>e. snd e = v) (edge dg) = {u'. (u', v) \<in> edge dg}"
    by (auto simp: image_iff)
  with assms show ?thesis by (simp add: in_degree_def)
qed

lemma add_node_frame:
  "set (nodes_of (add_node n g)) = insert n (set (nodes_of g))" "edge (add_node n g) = edge g"
  by (auto simp: add_node_def nodes_of_def)

lemma nodes_of_edge_update: "nodes_of (g\<lparr>edge := E\<rparr>) = nodes_of g"
  by (simp add: nodes_of_def)

lemma add_edge_frame:
  "set (nodes_of (add_edge u v g)) = insert u (insert v (set (nodes_of g)))"
  "edge (add_edge u v g) = insert (u, v) (edge g)"
  by (auto simp: add_edge_def Let_def add_node_frame nodes_of_edge_update)

lemma set_attr_total:
  assumes "n \<in> set (nodes_of g)"
  shows "\<exists>g'. set_attr n k v g = Inr g'"
proof -
  from assms have "n \<in> fst ` set (node g)" by (simp add: nodes_of_def)
  then obtain a where "map_of (node g) n = Some a"
    by (metis map_of_eq_None_iff not_Some_eq)
  then show ?thesis by (simp add: set_attr_Inr)
qed

lemma link_frame:
  "\<exists>g'. link u v col g = Inr g' \<and> edge g' = insert (u, v) (edge g) \<and>
        set (nodes_of g') = insert u (insert v (set (nodes_of g)))"
proof -
  let ?g0 = "add_edge u v g"
  have "v \<in> set (nodes_of ?g0)" by (simp add: add_edge_frame)
  then obtain g1 where g1: "set_attr v ''col'' (Str col) ?g0 = Inr g1"
    using set_attr_total by blast
  note f1 = set_attr_frame(1,2) [OF g1]
  have "u \<in> set (nodes_of g1)" by (simp add: f1 add_edge_frame)
  then obtain g2 where g2: "set_attr u ''col'' (Str col) g1 = Inr g2"
    using set_attr_total by blast
  note f2 = set_attr_frame(1,2) [OF g2]
  have "link u v col g = Inr g2" by (simp add: link_def g1 g2)
  moreover have "edge g2 = insert (u, v) (edge g)" by (simp add: f1 f2 add_edge_frame)
  moreover have "set (nodes_of g2) = insert u (insert v (set (nodes_of g)))"
    by (simp add: f1 f2 add_edge_frame)
  ultimately show ?thesis by blast
qed

lemma walk_levels_frame:
  "\<exists>g'. walk_levels r col cs g previous =
            Inr (g', last (previous # level_nodes r previous cs)) \<and>
        edge g' = edge g \<union> walk_edges (previous # level_nodes r previous cs) \<and>
        set (nodes_of g') =
          set (nodes_of g) \<union> (if cs = [] then {} else set (previous # level_nodes r previous cs))"
proof (induction cs arbitrary: g previous)
  case Nil
  then show ?case by simp
next
  case (Cons ic cs)
  obtain i c where ic: "ic = (i, c)" by (cases ic)
  define current where "current = level_name (case c r of None \<Rightarrow> previous | Some s \<Rightarrow> s) i"
  have split: "split_level (if c r = None then Some previous else c r) i = Inr current"
    by (cases "c r") (simp_all add: split_level_def current_def)
  obtain g1 where g1: "link previous current col g = Inr g1"
    "edge g1 = insert (previous, current) (edge g)"
    "set (nodes_of g1) = insert previous (insert current (set (nodes_of g)))"
    using link_frame by blast
  from Cons.IH [of g1 current] obtain g' where g':
    "walk_levels r col cs g1 current = Inr (g', last (current # level_nodes r current cs))"
    "edge g' = edge g1 \<union> walk_edges (current # level_nodes r current cs)"
    "set (nodes_of g') =
       set (nodes_of g1) \<union> (if cs = [] then {} else set (current # level_nodes r current cs))"
    by blast
  have nodes: "level_nodes r previous (ic # cs) = current # level_nodes r current cs"
    by (simp add: ic current_def Let_def)
  have "walk_levels r col (ic # cs) g previous = walk_levels r col cs g1 current"
    by (simp add: ic Let_def split g1(1))
  with g'(1) have run: "walk_levels r col (ic # cs) g previous =
      Inr (g', last (previous # level_nodes r previous (ic # cs)))"
    by (simp add: nodes)
  have edges: "edge g' = edge g \<union> walk_edges (previous # level_nodes r previous (ic # cs))"
    by (simp add: nodes g'(2) g1(2))
  have "set (nodes_of g') =
      set (nodes_of g) \<union> set (previous # level_nodes r previous (ic # cs))"
    unfolding nodes g'(3) g1(3) by auto
  with run edges show ?case by auto
qed

lemma level_nodes_nonempty: "cs \<noteq> [] \<Longrightarrow> level_nodes r previous cs \<noteq> []"
  by (cases cs) (auto simp: Let_def)

lemma add_path_frame:
  assumes r: "groupby_first df p = Some r" and parent: "Parent r = Some parent"
  shows "\<exists>g'. add_path root' df col p g = Inr g' \<and>
           edge g' = edge g \<union> walk_edges (pathway_walk root' df p) \<and>
           set (nodes_of g') = set (nodes_of g) \<union> set (pathway_walk root' df p)"
proof -
  define L where "L = level_nodes r root' category_columns"
  define a where "a = level_name parent 8"
  have walk: "pathway_walk root' df p = ((root' # L) @ [a]) @ [p]"
    by (simp add: pathway_walk_def r parent L_def a_def)
  have cols: "category_columns \<noteq> []" by (simp add: category_columns_def)
  define previous where "previous = last (root' # L)"
  obtain g1 where g1: "walk_levels r col category_columns g root' = Inr (g1, previous)"
    "edge g1 = edge g \<union> walk_edges (root' # L)"
    "set (nodes_of g1) = set (nodes_of g) \<union> set (root' # L)"
    using walk_levels_frame [of r col category_columns g root'] cols
    unfolding L_def previous_def by auto
  have split: "split_level (Parent r) 8 = Inr a"
    by (simp add: parent split_level_def a_def)
  obtain g2 where g2: "link previous a col g1 = Inr g2"
    "edge g2 = insert (previous, a) (edge g1)"
    "set (nodes_of g2) = insert previous (insert a (set (nodes_of g1)))"
    using link_frame by blast
  have "p \<in> set (nodes_of (add_edge a p g2))" by (simp add: add_edge_frame)
  then obtain g3 where g3: "set_attr p ''col'' (Str col) (add_edge a p g2) = Inr g3"
    using set_attr_total by blast
  note f3 = set_attr_frame(1,2) [OF g3]
  have "p \<in> set (nodes_of g3)" by (simp add: f3 add_edge_frame)
  then obtain g4 where
    g4: "set_attr p ''Name'' (case Name r of None \<Rightarrow> NaN | Some name \<Rightarrow> Str name) g3 = Inr g4"
    using set_attr_total by blast
  note f4 = set_attr_frame(1,2) [OF g4]
  have run: "add_path root' df col p g = Inr g4"
    by (simp add: add_path_def add_parent_def r g1(1) Let_def split g2(1) g3 g4)
  have "walk_edges (((root' # L) @ [a]) @ [p]) =
          insert (last ((root' # L) @ [a]), p) (walk_edges ((root' # L) @ [a]))"
    by (rule walk_edges_snoc) simp
  moreover have "walk_edges ((root' # L) @ [a]) = insert (previous, a) (walk_edges (root' # L))"
    unfolding previous_def by (rule walk_edges_snoc) simp
  moreover have "last ((root' # L) @ [a]) = a" by (rule last_snoc)
  ultimately have "walk_edges (pathway_walk root' df p) =
          insert (a, p) (insert (previous, a) (walk_edges (root' # L)))"
    unfolding walk by (simp only:)
  then have edges: "edge g4 = edge g \<union> walk_edges (pathway_walk root' df p)"
    by (simp add: f4 f3 add_edge_frame g2(2) g1(2))
  have "previous \<in> set (root' # L)" unfolding previous_def by (rule last_in_set) simp
  then have "set (nodes_of g4) = set (nodes_of g) \<union> set (pathway_walk root' df p)"
    unfolding walk f4 f3 add_edge_frame g2(3) g1(3) by auto
  with run edges show ?thesis by blast
qed

lemma add_paths_frame:
  assumes "\<forall>p \<in> set ps. \<exists>r parent. groupby_first df p = Some r \<and> Parent r = Some parent"
  shows "\<exists>g'. add_paths root' df col ps g = Inr g' \<and>
           edge g' = edge g \<union> (\<Union>p \<in> set ps. walk_edges (pathway_walk root' df p)) \<and>
           set (nodes_of g') = set (nodes_of g) \<union> (\<Union>p \<in> set ps. set (pathway_walk root' df p))"
  using assms
proof (induction ps arbitrary: g)
  case Nil
  then show ?case by simp
next
  case (Cons p ps)
  from Cons.prems obtain r parent where "groupby_first df p = Some r" "Parent r = Some parent"
    by auto
  from add_path_frame [OF this, of root' col g]
  obtain g1 where g1: "add_path root' df col p g = Inr g1"
    "edge g1 = edge g \<union> walk_edges (pathway_walk root' df p)"
    "set (nodes_of g1) = set (nodes_of g) \<union> set (pathway_walk root' df p)"
    by blast
  from Cons.prems have "\<forall>p \<in> set ps. \<exists>r parent. groupby_first df p = Some r \<and> Parent r = Some parent"
    by simp
  from Cons.IH [OF this, of g1] obtain g' where g': "add_paths root' df col ps g1 = Inr g'"
    "edge g' = edge g1 \<union> (\<Union>p \<in> set ps. walk_edges (pathway_walk root' df p))"
    "set (nodes_of g') = set (nodes_of g1) \<union> (\<Union>p \<in> set ps. set (pathway_walk root' df p))"
    by blast
  have "add_paths root' df col (p # ps) g = Inr g'" by (simp add: g1(1) g'(1))
  moreover have "edge g' = edge g \<union> (\<Union>p \<in> set (p # ps). walk_edges (pathway_walk root' df p))"
    unfolding g'(2) g1(2) by auto
  moreover have "set (nodes_of g') =
      set (nodes_of g) \<union> (\<Union>p \<in> set (p # ps). set (pathway_walk root' df p))"
    unfolding g'(3) g1(3) by auto
  ultimately show ?case by blast
qed

lemma first_valid_None: "first_valid cs = None \<longleftrightarrow> (\<forall>c \<in> set cs. c = None)"
  by (induction cs rule: first_valid.induct) simp_all

lemma groupby_first_Parent:
  assumes "r0 \<in> set df" and "Pathway r0 = p" and "Parent r0 \<noteq> None"
  shows "\<exists>r parent. groupby_first df p = Some r \<and> Parent r = Some parent"
proof -
  define g where "g = filter (\<lambda>r. Pathway r = p) df"
  from assms(1,2) have in_g: "r0 \<in> set g" by (simp add: g_def)
  then have ne: "g \<noteq> []" by (cases g) simp_all
  from in_g have "Parent r0 \<in> set (map Parent g)" unfolding set_map by (rule imageI)
  with assms(3) have "first_valid (map Parent g) \<noteq> None"
    unfolding first_valid_None by (rule_tac notI) (drule (1) bspec, simp)
  then obtain parent where "first_valid (map Parent g) = Some parent" by (cases "first_valid (map Parent g)") simp_all
  with ne show ?thesis by (simp add: groupby_first_def Let_def g_def [symmetric])
qed

lemma listed_row_found:
  assumes ok: "listed_rows_ok root' pwys metacyc_df" and p: "p \<in> set pwys"
  shows "\<exists>r parent.
           groupby_first (filter (\<lambda>r. Category1 r = Some root' \<and> Pathway r \<in> set pwys) metacyc_df) p
             = Some r \<and> Parent r = Some parent"
proof -
  from ok p obtain r0 where r0: "r0 \<in> set metacyc_df" "Pathway r0 = p" "Category1 r0 = Some root'"
    "Parent r0 \<noteq> None"
    unfolding listed_rows_ok_def by blast
  with p have "r0 \<in> set (filter (\<lambda>r. Category1 r = Some root' \<and> Pathway r \<in> set pwys) metacyc_df)"
    by simp
  from groupby_first_Parent [OF this r0(2) r0(4)] show ?thesis .
qed

lemma add_subset_graph:
  assumes rows: "listed_rows_ok root' pwys metacyc_df"
  shows "\<exists>dg. (add_subset root' pwys metacyc_df col :: py_error + 'c digraph) = Inr dg \<and>
           edge dg = (\<Union>W \<in> set (subset_walks root' pwys metacyc_df). walk_edges W) \<and>
           set (nodes_of dg) = (\<Union>W \<in> set (subset_walks root' pwys metacyc_df). set W)"
proof -
  define df where
    "df = filter (\<lambda>r. Category1 r = Some root' \<and> Pathway r \<in> set pwys) metacyc_df"
  have ws: "subset_walks root' pwys metacyc_df = map (pathway_walk root' df) pwys"
    by (simp add: subset_walks_def df_def)
  have found: "\<forall>p \<in> set pwys. \<exists>r parent. groupby_first df p = Some r \<and> Parent r = Some parent"
    unfolding df_def by (intro ballI listed_row_found [OF rows])
  define g0 :: "'c digraph" where "g0 = \<lparr>node = [], edge = {}\<rparr>"
  from add_paths_frame [OF found, of root' col g0]
  obtain dg where dg: "add_paths root' df col pwys g0 = Inr dg"
    "edge dg = edge g0 \<union> (\<Union>p \<in> set pwys. walk_edges (pathway_walk root' df p))"
    "set (nodes_of dg) = set (nodes_of g0) \<union> (\<Union>p \<in> set pwys. set (pathway_walk root' df p))"
    by (elim exE conjE)
  have "add_subset root' pwys metacyc_df col = Inr dg"
    using dg(1) by (simp add: add_subset_def df_def g0_def)
  moreover have "edge dg = (\<Union>W \<in> set (subset_walks root' pwys metacyc_df). walk_edges W)"
    using dg(2) by (simp add: ws g0_def)
  moreover have "set (nodes_of dg) = (\<Union>W \<in> set (subset_walks root' pwys metacyc_df). set W)"
    using dg(3) by (simp add: ws nodes_of_def g0_def)
  ultimately show ?thesis by (intro exI conjI)
qed

lemma subset_walks_start:
  assumes rows: "listed_rows_ok root' pwys metacyc_df"
  shows "\<forall>W \<in> set (subset_walks root' pwys metacyc_df). W \<noteq> [] \<and> W ! 0 = root'"
proof
  define df where
    "df = filter (\<lambda>r. Category1 r = Some root' \<and> Pathway r \<in> set pwys) metacyc_df"
  fix W assume "W \<in> set (subset_walks root' pwys metacyc_df)"
  then obtain p where p: "p \<in> set pwys" "W = pathway_walk root' df p"
    by (auto simp: subset_walks_def df_def)
  from listed_row_found [OF rows p(1)]
  obtain r parent where "groupby_first df p = Some r" "Parent r = Some parent"
    unfolding df_def by (elim exE conjE)
  with p(2) show "W \<noteq> [] \<and> W ! 0 = root'" by (simp add: pathway_walk_def)
qed

lemma walk_reaches:
  assumes "i < j" and "j < length W"
  shows "(W ! i, W ! j) \<in> (walk_edges W)\<^sup>+"
  using assms
proof (induction j)
  case 0
  then show ?case by simp
next
  case (Suc j)
  have step: "(W ! j, W ! Suc j) \<in> walk_edges W"
    using Suc.prems(2) by (auto simp: walk_edges_iff)
  show ?case
  proof (cases "i = j")
    case True
    with step show ?thesis by (simp add: trancl.r_into_trancl)
  next
    case False
    with Suc.prems have "i < j" "j < length W" by simp_all
    then have "(W ! i, W ! j) \<in> (walk_edges W)\<^sup>+" by (rule Suc.IH)
    from this step show ?thesis by (rule trancl.trancl_into_trancl)
  qed
qed

lemma in_degree_one_unique:
  assumes "in_degree dg v = 1" and "(u, v) \<in> edge dg" and "(u', v) \<in> edge dg"
  shows "u = u'"
proof -
  let ?S = "fst ` Set.filter (\<lambda>e. snd e = v) (edge dg)"
  from assms(1) obtain x where x: "?S = {x}"
    unfolding in_degree_def by (rule card_1_singletonE)
  have "u \<in> ?S" "u' \<in> ?S" using assms(2,3) by (auto simp: image_iff)
  with x show ?thesis by simp
qed

lemma in_degree_zero:
  assumes "\<forall>u. (u, v) \<notin> edge dg"
  shows "in_degree dg v = 0"
proof -
  have "Set.filter (\<lambda>e. snd e = v) (edge dg) = {}" using assms by auto
  then have "in_degree dg v = card (fst ` ({} :: (string \<times> string) set))"
    by (simp only: in_degree_def)
  then show ?thesis by simp
qed

lemma subset_walks_end:
  assumes rows: "listed_rows_ok root' pwys metacyc_df" and p: "p \<in> set pwys"
  shows "\<exists>W \<in> set (subset_walks root' pwys metacyc_df). p \<in> set W"
proof -
  define df where
    "df = filter (\<lambda>r. Category1 r = Some root' \<and> Pathway r \<in> set pwys) metacyc_df"
  from listed_row_found [OF rows p]
  obtain r parent where "groupby_first df p = Some r" "Parent r = Some parent"
    unfolding df_def by (elim exE conjE)
  then have "p \<in> set (pathway_walk root' df p)" by (simp add: pathway_walk_def)
  moreover have "pathway_walk root' df p \<in> set (subset_walks root' pwys metacyc_df)"
    using p by (simp add: subset_walks_def df_def)
  ultimately show ?thesis by (rule bexI)
qed

text \<open>
  C2, amended: for every category table in which each listed pathway has a row with
  \<open>Category1\<close> equal to the root and a parent and a name that are not NaN, and in which the
  walks of the listed pathways agree (a node that two walks reach is reached at the same
  depth and from the same node), and every pathway list that is not empty, \<open>add_subset\<close>
  returns the graph of the walks, and it is a tree rooted at the root: it has no cycle,
  every node other than the root has in-degree 1, the root is a node with in-degree 0, every
  listed pathway is a node, and every node is reached from the root.
\<close>

theorem add_subset_tree:
  assumes rows: "listed_rows_ok root' pwys metacyc_df"
    and walks: "consistent_walks (subset_walks root' pwys metacyc_df)"
    and nonempty: "pwys \<noteq> []"
  shows "\<exists>dg. (add_subset root' pwys metacyc_df col :: py_error + 'c digraph) = Inr dg \<and>
              is_tree root' dg \<and>
              root' \<in> set (nodes_of dg) \<and> in_degree dg root' = 0 \<and>
              set pwys \<subseteq> set (nodes_of dg) \<and>
              (\<forall>v \<in> set (nodes_of dg). (root', v) \<in> (edge dg)\<^sup>*) \<and>
              edge dg = (\<Union>W \<in> set (subset_walks root' pwys metacyc_df). walk_edges W) \<and>
              set (nodes_of dg) = (\<Union>W \<in> set (subset_walks root' pwys metacyc_df). set W)"
proof -
  define ws where "ws = subset_walks root' pwys metacyc_df"
  from add_subset_graph [OF rows, of col]
  obtain dg :: "'c digraph" where run: "add_subset root' pwys metacyc_df col = Inr dg"
    and edges: "edge dg = (\<Union>W \<in> set ws. walk_edges W)"
    and nodes: "set (nodes_of dg) = (\<Union>W \<in> set ws. set W)"
    unfolding ws_def by (elim exE conjE)
  have start: "\<forall>W \<in> set ws. W \<noteq> [] \<and> W ! 0 = root'"
    unfolding ws_def by (rule subset_walks_start [OF rows])
  have cons: "consistent_walks ws" using walks by (simp add: ws_def)
  have "acyclic (edge dg)" unfolding edges by (rule consistent_walks_acyclic [OF cons])
  moreover have "\<forall>v \<in> set (nodes_of dg). v \<noteq> root' \<longrightarrow> in_degree dg v = 1"
  proof (intro ballI impI)
    fix v assume "v \<in> set (nodes_of dg)" "v \<noteq> root'"
    then have "\<exists>u. {u'. (u', v) \<in> (\<Union>W \<in> set ws. walk_edges W)} = {u}"
      unfolding nodes by (rule consistent_walks_unique_pred [OF cons start])
    then obtain u where "{u'. (u', v) \<in> edge dg} = {u}" unfolding edges by (elim exE)
    then show "in_degree dg v = 1" by (rule in_degree_one)
  qed
  ultimately have tree: "is_tree root' dg" by (simp add: is_tree_def)
  have listed: "set pwys \<subseteq> set (nodes_of dg)"
  proof
    fix p assume "p \<in> set pwys"
    from subset_walks_end [OF rows this] show "p \<in> set (nodes_of dg)"
      unfolding nodes ws_def by blast
  qed
  have root_node: "root' \<in> set (nodes_of dg)"
  proof -
    from nonempty obtain p where "p \<in> set pwys" by (cases pwys) auto
    then have "pathway_walk root'
        (filter (\<lambda>r. Category1 r = Some root' \<and> Pathway r \<in> set pwys) metacyc_df) p \<in> set ws"
      by (simp add: ws_def subset_walks_def)
    then obtain W where W: "W \<in> set ws" ..
    with start have "W \<noteq> []" "W ! 0 = root'" by simp_all
    then have "root' \<in> set W" by (metis length_greater_0_conv nth_mem)
    with W show ?thesis unfolding nodes by blast
  qed
  have no_pred: "(u, root') \<notin> edge dg" for u
  proof
    assume "(u, root') \<in> edge dg"
    then obtain Q k where Q: "Q \<in> set ws" and k: "Suc k < length Q" "root' = Q ! Suc k"
      unfolding edges by (auto simp: walk_edges_iff)
    from start Q have "Q \<noteq> []" "Q ! 0 = root'" by simp_all
    with k(2) have "Q ! 0 = Q ! Suc k" "0 < length Q" by simp_all
    from consistent_walksD(1) [OF cons Q Q this(2) k(1) this(1)] show False by simp
  qed
  then have root_degree: "in_degree dg root' = 0" by (intro in_degree_zero allI)
  have reach: "\<forall>v \<in> set (nodes_of dg). (root', v) \<in> (edge dg)\<^sup>*"
  proof
    fix v assume "v \<in> set (nodes_of dg)"
    then obtain W j where W: "W \<in> set ws" and j: "j < length W" "v = W ! j"
      unfolding nodes by (auto simp: in_set_conv_nth)
    from start W have W0: "W ! 0 = root'" by simp
    have sub: "walk_edges W \<subseteq> edge dg" using W edges by auto
    show "(root', v) \<in> (edge dg)\<^sup>*"
    proof (cases j)
      case 0
      with j W0 show ?thesis by simp
    next
      case (Suc i)
      with j have "0 < j" by simp
      from walk_reaches [OF this j(1)] have "(W ! 0, W ! j) \<in> (walk_edges W)\<^sup>+" .
      with sub have "(W ! 0, W ! j) \<in> (edge dg)\<^sup>+" by (rule trancl_mono [rotated])
      with W0 j(2) show ?thesis by (simp add: trancl_into_rtrancl)
    qed
  qed
  from run tree root_node root_degree listed reach edges nodes show ?thesis
    unfolding ws_def by (intro exI conjI)
qed

theorem add_subset_tree_witness:
  "\<exists>dg. (add_subset ''R'' [''P1'', ''P2''] hierarchy_table ''b'' :: py_error + int digraph) = Inr dg \<and>
         is_tree ''R'' dg \<and> ''R'' \<in> set (nodes_of dg) \<and> in_degree dg ''R'' = 0 \<and>
         ''P1'' \<in> set (nodes_of dg) \<and> ''P2'' \<in> set (nodes_of dg) \<and>
         (''R'', ''P2'') \<in> (edge dg)\<^sup>*"
proof -
  have rows: "listed_rows_ok ''R'' [''P1'', ''P2''] hierarchy_table" by code_simp
  have walks: "consistent_walks (subset_walks ''R'' [''P1'', ''P2''] hierarchy_table)" by code_simp
  have nonempty: "[''P1'', ''P2''] \<noteq> []" by simp
  from add_subset_tree [OF rows walks nonempty, of "''b''", where ?'c = int]
  obtain dg :: "int digraph" where
    dg: "add_subset ''R'' [''P1'', ''P2''] hierarchy_table ''b'' = Inr dg" "is_tree ''R'' dg"
      "''R'' \<in> set (nodes_of dg)" "in_degree dg ''R'' = 0"
    and listed: "set [''P1'', ''P2''] \<subseteq> set (nodes_of dg)"
    and reach: "\<forall>v \<in> set (nodes_of dg). (''R'', v) \<in> (edge dg)\<^sup>*"
    by (elim exE conjE)
  from listed have p: "''P1'' \<in> set (nodes_of dg)" "''P2'' \<in> set (nodes_of dg)" by simp_all
  from bspec [OF reach p(2)] have "(''R'', ''P2'') \<in> (edge dg)\<^sup>*" .
  with dg p show ?thesis by (intro exI conjI)
qed

text \<open>
  C2 as stated, for every category table, fails where two listed pathways have the same
  third level below two different second levels: the node of the third level has two
  incoming edges.
\<close>

theorem add_subset_shared_level_counterexample:
  "listed_rows_ok ''R'' [''P1'', ''P2''] shared_level_table \<and>
   (case (add_subset ''R'' [''P1'', ''P2''] shared_level_table ''b'' :: py_error + int digraph) of
      Inl e \<Rightarrow> False
    | Inr dg \<Rightarrow> ''X|3'' \<in> set (nodes_of dg) \<and> ''X|3'' \<noteq> ''R'' \<and> in_degree dg ''X|3'' = 2 \<and>
               \<not> is_tree ''R'' dg)"
proof -
  have rows: "listed_rows_ok ''R'' [''P1'', ''P2''] shared_level_table" by code_simp
  have deg: "(case (add_subset ''R'' [''P1'', ''P2''] shared_level_table ''b'' :: py_error + int digraph) of
      Inl e \<Rightarrow> False
    | Inr dg \<Rightarrow> ''X|3'' \<in> set (nodes_of dg) \<and> ''X|3'' \<noteq> ''R'' \<and> in_degree dg ''X|3'' = 2)"
    by code_simp
  then have "(case (add_subset ''R'' [''P1'', ''P2''] shared_level_table ''b'' :: py_error + int digraph) of
      Inl e \<Rightarrow> False
    | Inr dg \<Rightarrow> ''X|3'' \<in> set (nodes_of dg) \<and> ''X|3'' \<noteq> ''R'' \<and> in_degree dg ''X|3'' = 2 \<and>
               \<not> is_tree ''R'' dg)"
  proof (cases "add_subset ''R'' [''P1'', ''P2''] shared_level_table ''b'' :: py_error + int digraph")
    case (Inl e)
    with deg show ?thesis by simp
  next
    case (Inr dg)
    with deg have d: "''X|3'' \<in> set (nodes_of dg)" "''X|3'' \<noteq> ''R''" "in_degree dg ''X|3'' = 2"
      by simp_all
    have "\<not> is_tree ''R'' dg"
    proof
      assume "is_tree ''R'' dg"
      then have "\<forall>v \<in> set (nodes_of dg). v \<noteq> ''R'' \<longrightarrow> in_degree dg v = 1"
        by (simp add: is_tree_def)
      from bspec [OF this d(1)] d(2) have "in_degree dg ''X|3'' = 1" by simp
      with d(3) show False by simp
    qed
    with d Inr show ?thesis by simp
  qed
  with rows show ?thesis by (rule conjI)
qed

text \<open>
  The condition on the walks is necessary: where the graph that \<open>add_subset\<close> returns is a
  tree, the walks agree.
\<close>

lemma tree_walks_consistent:
  assumes acyc: "acyclic (edge dg)"
    and one: "\<forall>v \<in> set (nodes_of dg). v \<noteq> r \<longrightarrow> in_degree dg v = 1"
    and edges: "edge dg = (\<Union>W \<in> set ws. walk_edges W)"
    and nodes: "set (nodes_of dg) = (\<Union>W \<in> set ws. set W)"
    and start: "\<forall>W \<in> set ws. W \<noteq> [] \<and> W ! 0 = r"
  shows "consistent_walks ws"
proof -
  have away: "W ! j \<noteq> r" if W: "W \<in> set ws" and j: "0 < j" "j < length W" for W j
  proof
    assume ret: "W ! j = r"
    from walk_reaches [OF j] have "(W ! 0, W ! j) \<in> (walk_edges W)\<^sup>+" .
    moreover have "walk_edges W \<subseteq> edge dg" using W edges by auto
    ultimately have "(W ! 0, W ! j) \<in> (edge dg)\<^sup>+" by (rule trancl_mono)
    with start W ret have "(r, r) \<in> (edge dg)\<^sup>+" by simp
    with acyc show False by (simp add: acyclic_def)
  qed
  have main: "j = k \<and> (0 < j \<longrightarrow> P ! (j - 1) = Q ! (k - 1))"
    if "P \<in> set ws" "Q \<in> set ws" "j < length P" "k < length Q" "P ! j = Q ! k" for P Q j k
    using that
  proof (induction j arbitrary: k)
    case 0
    with start have "Q ! k = r" by simp
    with away [OF 0(2) _ 0(4)] have "k = 0" by (cases k) auto
    then show ?case by simp
  next
    case (Suc j)
    from away [OF Suc.prems(1) _ Suc.prems(3)] have vr: "P ! Suc j \<noteq> r" by simp
    with Suc.prems(5) start [rule_format, OF Suc.prems(2)] have "k \<noteq> 0" by (cases k) auto
    then obtain k' where k: "k = Suc k'" by (cases k) auto
    have "(P ! j, P ! Suc j) \<in> edge dg"
      using Suc.prems(1,3) edges by (auto simp: walk_edges_iff)
    moreover have "(Q ! k', P ! Suc j) \<in> edge dg"
      using Suc.prems(2,4,5) edges k by (auto simp: walk_edges_iff)
    moreover have "in_degree dg (P ! Suc j) = 1"
    proof -
      have "P ! Suc j \<in> set P" using Suc.prems(3) by (rule nth_mem)
      with Suc.prems(1) have "P ! Suc j \<in> set (nodes_of dg)" unfolding nodes by blast
      with one vr show ?thesis by simp
    qed
    ultimately have pred: "P ! j = Q ! k'" by (intro in_degree_one_unique)
    from Suc.prems(3,4) k have "j < length P" "k' < length Q" by simp_all
    from Suc.IH [OF Suc.prems(1,2) this pred] have "j = k'" by simp
    with pred k show ?case by simp
  qed
  show ?thesis
    unfolding consistent_walks_def
  proof (intro ballI impI)
    fix P Q j k
    assume "P \<in> set ws" "Q \<in> set ws" "j \<in> {0 ..< length P}" "k \<in> {0 ..< length Q}" "P ! j = Q ! k"
    then show "j = k \<and> (0 < j \<longrightarrow> P ! (j - 1) = Q ! (k - 1))"
      by (intro main) simp_all
  qed
qed

lemma add_subset_tree_only_if:
  assumes rows: "listed_rows_ok root' pwys metacyc_df"
    and run: "(add_subset root' pwys metacyc_df col :: py_error + 'c digraph) = Inr dg"
    and tree: "is_tree root' dg"
  shows "consistent_walks (subset_walks root' pwys metacyc_df)"
proof -
  from add_subset_graph [where ?'c = 'c, OF rows, of col]
  obtain dg' :: "'c digraph" where "add_subset root' pwys metacyc_df col = Inr dg'"
    and e: "edge dg' = (\<Union>W \<in> set (subset_walks root' pwys metacyc_df). walk_edges W)"
    and n: "set (nodes_of dg') = (\<Union>W \<in> set (subset_walks root' pwys metacyc_df). set W)"
    by (elim exE conjE)
  with run have "dg' = dg" by simp
  with e n
  have edges: "edge dg = (\<Union>W \<in> set (subset_walks root' pwys metacyc_df). walk_edges W)"
    and nodes: "set (nodes_of dg) = (\<Union>W \<in> set (subset_walks root' pwys metacyc_df). set W)"
    by simp_all
  from tree have "acyclic (edge dg)"
    and "\<forall>v \<in> set (nodes_of dg). v \<noteq> root' \<longrightarrow> in_degree dg v = 1"
    by (simp_all add: is_tree_def)
  then show ?thesis
    using edges nodes subset_walks_start [OF rows] by (rule tree_walks_consistent)
qed


section \<open>Failures of \<open>add_subset\<close> and \<open>make_shells\<close>\<close>

text \<open>
  C6 promises the fallback to the previous level for a NaN in every walked column, the
  parent included. The loop over the categories has it, and \<open>walk_levels\<close> does not fail.
  For the parent the code assigns \<open>r["Parent"]\<close> again in place of \<open>previous\<close>, so a pathway
  whose parent is NaN makes \<open>add_subset\<close> raise AttributeError.
\<close>

theorem add_subset_nan_parent:
  "(add_subset ''R'' [''P1''] no_parent_table ''b'' :: py_error + 'c digraph) = Inl AttributeError"
  by (simp add: add_subset_def no_parent_table_def path_row_def groupby_first_def add_path_def
      add_parent_def
      category_columns_def split_level_def level_name_def link_def set_attr_def add_edge_def
      add_node_def nodes_of_def)

lemma add_path_nan_parent:
  assumes "groupby_first df p = Some r" and "Parent r = None"
  shows "add_path root' df col p g = Inl AttributeError"
proof -
  obtain g1 previous where "walk_levels r col category_columns g root' = Inr (g1, previous)"
    using walk_levels_frame by blast
  with assms show ?thesis by (simp add: add_path_def add_parent_def split_level_def)
qed

lemma add_path_no_row: "groupby_first df p = None \<Longrightarrow> add_path root' df col p g = Inl (KeyError p)"
  by (simp add: add_path_def)

lemma add_paths_append:
  "add_paths root' df col (ps @ qs) g =
     (case add_paths root' df col ps g of Inl e \<Rightarrow> Inl e | Inr g' \<Rightarrow> add_paths root' df col qs g')"
  by (induction ps arbitrary: g) (simp_all split: sum.splits)

lemma groupby_first_None:
  "groupby_first df p = None \<longleftrightarrow> (\<forall>r \<in> set df. Pathway r \<noteq> p)"
  by (auto simp: groupby_first_def Let_def filter_empty_conv)

lemma groupby_first_no_parent:
  assumes "r0 \<in> set df" and "Pathway r0 = p" and "\<forall>r \<in> set df. Pathway r = p \<longrightarrow> Parent r = None"
  shows "\<exists>r. groupby_first df p = Some r \<and> Parent r = None"
proof -
  define g where "g = filter (\<lambda>r. Pathway r = p) df"
  from assms(1,2) have "r0 \<in> set g" by (simp add: g_def)
  then have ne: "g \<noteq> []" by (cases g) simp_all
  have "\<forall>c \<in> set (map Parent g). c = None" using assms(3) by (auto simp: g_def)
  then have "first_valid (map Parent g) = None" by (simp only: first_valid_None)
  with ne show ?thesis by (simp add: groupby_first_def Let_def g_def [symmetric])
qed

lemma make_shells_Inl:
  "(make_shells num_shells nodes = Inl e) = (num_shells = 0 \<and> e = ZeroDivisionError)"
  by (auto simp: make_shells_def Let_def)

text \<open>
  C7: neither function handles a failure. In \<open>make_shells\<close> the division is the one step
  that fails, for no shells, and the result is then its ZeroDivisionError and no list. In
  \<open>add_subset\<close>, where the pathways listed before \<open>p\<close> each have a row of the root with a
  parent, \<open>df.loc[p]\<close> fails for a \<open>p\<close> with no row of the root and the result is its
  KeyError; \<open>.split\<close> fails for a \<open>p\<close> whose rows of the root all have a NaN parent and the
  result is its AttributeError. The result is the error of the step, never a graph.
\<close>

theorem errors_propagate:
  assumes earlier: "\<forall>q \<in> set ps. \<exists>r \<in> set metacyc_df.
      Pathway r = q \<and> Category1 r = Some root' \<and> Parent r \<noteq> None"
  shows "(make_shells num_shells nodes = Inl e) = (num_shells = 0 \<and> e = ZeroDivisionError) \<and>
    ((\<forall>r \<in> set metacyc_df. Pathway r = p \<longrightarrow> Category1 r \<noteq> Some root')
       \<longrightarrow> (add_subset root' (ps @ p # qs) metacyc_df col :: py_error + 'c digraph) =
             Inl (KeyError p)) \<and>
    ((\<exists>r \<in> set metacyc_df. Pathway r = p \<and> Category1 r = Some root') \<and>
     (\<forall>r \<in> set metacyc_df. Pathway r = p \<and> Category1 r = Some root' \<longrightarrow> Parent r = None)
       \<longrightarrow> (add_subset root' (ps @ p # qs) metacyc_df col :: py_error + 'c digraph) =
             Inl AttributeError)"
proof -
  define df where
    "df = filter (\<lambda>r. Category1 r = Some root' \<and> Pathway r \<in> set (ps @ p # qs)) metacyc_df"
  define g0 :: "'c digraph" where "g0 = \<lparr>node = [], edge = {}\<rparr>"
  have found: "\<forall>q \<in> set ps. \<exists>r parent. groupby_first df q = Some r \<and> Parent r = Some parent"
  proof
    fix q assume q: "q \<in> set ps"
    with earlier obtain r0 where r0: "r0 \<in> set metacyc_df" "Pathway r0 = q"
      "Category1 r0 = Some root'" "Parent r0 \<noteq> None"
      by blast
    with q have "r0 \<in> set df" by (simp add: df_def)
    from groupby_first_Parent [OF this r0(2) r0(4)]
    show "\<exists>r parent. groupby_first df q = Some r \<and> Parent r = Some parent" .
  qed
  from add_paths_frame [OF found, of root' col g0]
  obtain dg where dg: "add_paths root' df col ps g0 = Inr dg" by (elim exE conjE)
  have step: "(add_subset root' (ps @ p # qs) metacyc_df col :: py_error + 'c digraph) = Inl e'"
    if "add_path root' df col p dg = Inl e'" for e'
    using that dg by (simp add: add_subset_def Let_def add_paths_append df_def g0_def)
  have key: "(add_subset root' (ps @ p # qs) metacyc_df col :: py_error + 'c digraph) = Inl (KeyError p)"
    if none: "\<forall>r \<in> set metacyc_df. Pathway r = p \<longrightarrow> Category1 r \<noteq> Some root'"
  proof -
    from none have "groupby_first df p = None"
      unfolding groupby_first_None by (auto simp: df_def)
    then have "add_path root' df col p dg = Inl (KeyError p)" by (rule add_path_no_row)
    then show ?thesis by (rule step)
  qed
  have attr: "(add_subset root' (ps @ p # qs) metacyc_df col :: py_error + 'c digraph) = Inl AttributeError"
    if nan: "(\<exists>r \<in> set metacyc_df. Pathway r = p \<and> Category1 r = Some root') \<and>
       (\<forall>r \<in> set metacyc_df. Pathway r = p \<and> Category1 r = Some root' \<longrightarrow> Parent r = None)"
  proof -
    from nan obtain r0 where r0: "r0 \<in> set metacyc_df" "Pathway r0 = p" "Category1 r0 = Some root'"
      by blast
    then have in_df: "r0 \<in> set df" by (simp add: df_def)
    from nan have "\<forall>r \<in> set df. Pathway r = p \<longrightarrow> Parent r = None" by (simp add: df_def)
    from groupby_first_no_parent [OF in_df r0(2) this]
    obtain r where "groupby_first df p = Some r" "Parent r = None" by (elim exE conjE)
    then have "add_path root' df col p dg = Inl AttributeError" by (rule add_path_nan_parent)
    then show ?thesis by (rule step)
  qed
  from make_shells_Inl key attr show ?thesis by (intro conjI impI)
qed

theorem errors_propagate_witness:
  "make_shells 0 [''a'', ''b''] = Inl ZeroDivisionError \<and>
   (add_subset ''R'' [''P1'', ''P3'', ''P2''] hierarchy_table ''b'' :: py_error + int digraph) =
     Inl (KeyError ''P3'') \<and>
   (add_subset ''R'' [''P1'', ''P2''] late_nan_table ''b'' :: py_error + int digraph) =
     Inl AttributeError"
proof -
  have first: "\<forall>q \<in> set [''P1'']. \<exists>r \<in> set hierarchy_table.
      Pathway r = q \<and> Category1 r = Some ''R'' \<and> Parent r \<noteq> None"
    by code_simp
  have first': "\<forall>q \<in> set [''P1'']. \<exists>r \<in> set late_nan_table.
      Pathway r = q \<and> Category1 r = Some ''R'' \<and> Parent r \<noteq> None"
    by code_simp
  have no_row: "\<forall>r \<in> set hierarchy_table. Pathway r = ''P3'' \<longrightarrow> Category1 r \<noteq> Some ''R''"
    by code_simp
  have nan: "(\<exists>r \<in> set late_nan_table. Pathway r = ''P2'' \<and> Category1 r = Some ''R'') \<and>
     (\<forall>r \<in> set late_nan_table. Pathway r = ''P2'' \<and> Category1 r = Some ''R'' \<longrightarrow> Parent r = None)"
    by code_simp
  note a = errors_propagate [OF first, where ?'c = int and num_shells = 0 and nodes = "[''a'', ''b'']"
      and e = ZeroDivisionError and p = "''P3''" and qs = "[''P2'']" and col = "''b''"]
  note b = errors_propagate [OF first', where ?'c = int and p = "''P2''" and qs = "[]"
      and col = "''b''"]
  from a have "make_shells 0 [''a'', ''b''] = Inl ZeroDivisionError" by simp
  moreover from a [THEN conjunct2, THEN conjunct1, THEN mp, OF no_row]
  have "(add_subset ''R'' [''P1'', ''P3'', ''P2''] hierarchy_table ''b'' :: py_error + int digraph) =
     Inl (KeyError ''P3'')" by (simp only: append.simps)
  moreover from b [THEN conjunct2, THEN conjunct2, THEN mp, OF nan]
  have "(add_subset ''R'' [''P1'', ''P2''] late_nan_table ''b'' :: py_error + int digraph) =
     Inl AttributeError" by (simp only: append.simps)
  ultimately show ?thesis by (intro conjI)
qed

end
